theory Spec2Isabelle
  imports Main
begin

section \<open>Python list and dictionary access with its exceptions\<close>

text \<open>
  Both engines keep the board as a list of lists and read and write it by index.
  A Python index outside the list raises \<^verbatim>\<open>IndexError\<close> and a negative index counts
  from the end; a missing dictionary key raises \<^verbatim>\<open>KeyError\<close>. Every such raise is a
  value \<open>Inl e\<close> of the result type.
\<close>

datatype py_error = IndexError | KeyError

definition py_bind :: "py_error + 'a \<Rightarrow> ('a \<Rightarrow> py_error + 'b) \<Rightarrow> py_error + 'b" where
  "py_bind m f = (case m of Inl e \<Rightarrow> Inl e | Inr x \<Rightarrow> f x)"

definition list_slot :: "nat \<Rightarrow> int \<Rightarrow> nat option" where
  "list_slot n i =
     (if 0 \<le> i \<and> i < int n then Some (nat i)
      else if i < 0 \<and> - int n \<le> i then Some (nat (int n + i))
      else None)"

definition py_getitem :: "'a list \<Rightarrow> int \<Rightarrow> py_error + 'a" where
  "py_getitem xs i = (case list_slot (length xs) i of None \<Rightarrow> Inl IndexError | Some j \<Rightarrow> Inr (xs ! j))"

definition py_setitem :: "'a list \<Rightarrow> int \<Rightarrow> 'a \<Rightarrow> py_error + 'a list" where
  "py_setitem xs i v = (case list_slot (length xs) i of None \<Rightarrow> Inl IndexError | Some j \<Rightarrow> Inr (xs[j := v]))"

text \<open>\<^verbatim>\<open>board[row][col]\<close> and \<^verbatim>\<open>board[row][col] = v\<close> on a list of rows.\<close>

definition board_get :: "'a list list \<Rightarrow> int \<Rightarrow> int \<Rightarrow> py_error + 'a" where
  "board_get b row col = py_bind (py_getitem b row) (\<lambda>line. py_getitem line col)"

definition board_set :: "'a list list \<Rightarrow> int \<Rightarrow> int \<Rightarrow> 'a \<Rightarrow> py_error + 'a list list" where
  "board_set b row col v =
     py_bind (py_getitem b row) (\<lambda>line.
     py_bind (py_setitem line col v) (\<lambda>line'.
     py_setitem b row line'))"

text \<open>
  \<^verbatim>\<open>all(...)\<close> over a generator stops at the first false element, and a loop of the
  shape \<^verbatim>\<open>for ...: if cond: return True\<close> stops at the first true one; an exception raised
  before that point propagates.
\<close>

fun py_all :: "(py_error + bool) list \<Rightarrow> py_error + bool" where
  "py_all [] = Inr True"
| "py_all (x # xs) = (case x of Inl e \<Rightarrow> Inl e | Inr t \<Rightarrow> if t then py_all xs else Inr False)"

fun py_first :: "(py_error + bool) list \<Rightarrow> py_error + bool" where
  "py_first [] = Inr False"
| "py_first (x # xs) = (case x of Inl e \<Rightarrow> Inl e | Inr t \<Rightarrow> if t then Inr True else py_first xs)"

definition range3 :: "int list" where
  "range3 = [0, 1, 2]"

section \<open>The engine of backend/game_logic.py\<close>

datatype Player = Player_X | Player_O | Player_EMPTY

fun player_value :: "Player \<Rightarrow> string" where
  "player_value Player_X = ''X''"
| "player_value Player_O = ''O''"
| "player_value Player_EMPTY = '' ''"

datatype GameState = IN_PROGRESS | X_WINS | O_WINS | DRAW

record game =
  board :: "string list list"
  move_history_x :: "(int \<times> int) list"
  move_history_o :: "(int \<times> int) list"
  current_player :: Player
  state :: GameState

definition empty_board :: "string list list" where
  "empty_board = map (\<lambda>_. map (\<lambda>_. player_value Player_EMPTY) range3) range3"

definition new_game :: game where
  "new_game = \<lparr>board = empty_board, move_history_x = [], move_history_o = [],
               current_player = Player_X, state = IN_PROGRESS\<rparr>"

definition get_move_history :: "game \<Rightarrow> Player \<Rightarrow> (int \<times> int) list" where
  "get_move_history s player =
     (if player = Player_X then move_history_x s
      else if player = Player_O then move_history_o s
      else [])"

definition is_valid_move :: "game \<Rightarrow> int \<Rightarrow> int \<Rightarrow> py_error + bool" where
  "is_valid_move s row col =
     (if state s \<noteq> IN_PROGRESS then Inr False
      else if row < 0 \<or> row > 2 \<or> col < 0 \<or> col > 2 then Inr False
      else py_bind (board_get (board s) row col) (\<lambda>v.
        if v \<noteq> player_value Player_EMPTY then Inr False else Inr True))"

definition check_win :: "string list list \<Rightarrow> Player \<Rightarrow> py_error + bool" where
  "check_win b player =
     (let symbol = player_value player;
          at = (\<lambda>row col. py_bind (board_get b row col) (\<lambda>v. Inr (v = symbol)))
      in py_bind (py_first (map (\<lambda>row. py_all (map (\<lambda>col. at row col) range3)) range3)) (\<lambda>hit.
         if hit then Inr True else
         py_bind (py_first (map (\<lambda>col. py_all (map (\<lambda>row. at row col) range3)) range3)) (\<lambda>hit.
         if hit then Inr True else
         py_bind (py_all (map (\<lambda>i. at i i) range3)) (\<lambda>hit.
         if hit then Inr True else
         py_bind (py_all (map (\<lambda>i. at i (2 - i)) range3)) (\<lambda>hit.
         if hit then Inr True else Inr False)))))"

definition check_draw :: "string list list \<Rightarrow> py_error + bool" where
  "check_draw b =
     py_bind (py_first (concat (map (\<lambda>row. map (\<lambda>col.
                py_bind (board_get b row col) (\<lambda>v. Inr (v = player_value Player_EMPTY))) range3) range3)))
       (\<lambda>found_empty. if found_empty then Inr False else Inr True)"

definition other_player :: "Player \<Rightarrow> Player" where
  "other_player p = (if p = Player_X then Player_O else Player_X)"

definition make_move :: "game \<Rightarrow> int \<Rightarrow> int \<Rightarrow> py_error + (bool \<times> game)" where
  "make_move s row col =
     py_bind (is_valid_move s row col) (\<lambda>valid.
     if \<not> valid then Inr (False, s) else
     let mover = current_player s;
         move_history = (if mover = Player_X then move_history_x s else move_history_o s)
     in
     py_bind (if length move_history \<ge> 3
              then (case move_history of
                      [] \<Rightarrow> Inl IndexError
                    | (oldest_row, oldest_col) # rest \<Rightarrow>
                        py_bind (board_set (board s) oldest_row oldest_col (player_value Player_EMPTY))
                          (\<lambda>b. Inr (b, rest)))
              else Inr (board s, move_history)) (\<lambda>(b1, history1).
     py_bind (board_set b1 row col (player_value mover)) (\<lambda>b2.
     let history2 = history1 @ [(row, col)];
         s2 = (if mover = Player_X then s\<lparr>board := b2, move_history_x := history2\<rparr>
               else s\<lparr>board := b2, move_history_o := history2\<rparr>)
     in
     py_bind (check_win b2 mover) (\<lambda>won.
     py_bind (if won then Inr (if mover = Player_X then X_WINS else O_WINS)
              else py_bind (check_draw b2) (\<lambda>full. Inr (if full then DRAW else state s)))
       (\<lambda>st. Inr (True, s2\<lparr>state := st, current_player := other_player mover\<rparr>))))))"

definition reset :: "game \<Rightarrow> game" where
  "reset s = s\<lparr>board := empty_board, move_history_x := [], move_history_o := [],
               current_player := Player_X, state := IN_PROGRESS\<rparr>"

definition get_oldest_piece_position :: "game \<Rightarrow> Player \<Rightarrow> (int \<times> int) option" where
  "get_oldest_piece_position s player =
     (let move_history = (if player = Player_X then move_history_x s else move_history_o s)
      in if length move_history > 0 then Some (hd move_history) else None)"

text \<open>States reachable from a fresh game by move attempts and resets.\<close>

inductive reachable :: "game \<Rightarrow> bool" where
  reach_new: "reachable new_game"
| reach_move: "reachable s \<Longrightarrow> make_move s row col = Inr (ok, s') \<Longrightarrow> reachable s'"
| reach_reset: "reachable s \<Longrightarrow> reachable (reset s)"

text \<open>A run of move attempts: the flags returned and the final state.\<close>

fun play :: "game \<Rightarrow> (int \<times> int) list \<Rightarrow> py_error + (bool list \<times> game)" where
  "play s [] = Inr ([], s)"
| "play s ((row, col) # ms) =
     py_bind (make_move s row col) (\<lambda>(ok, s').
     py_bind (play s' ms) (\<lambda>(oks, s''). Inr (ok # oks, s'')))"

section \<open>The engine of Back-End-Game-Logic/game_logic_main.py\<close>

text \<open>
  The second engine has the same class and method names as the first. Its state record is
  \<open>game_main\<close>, and the names that would clash carry the suffix \<open>_main\<close>. Cells are
  \<^verbatim>\<open>None\<close> or a player string, players and statuses are plain strings, and the two
  histories live in a dictionary keyed by the player string.
\<close>

record game_main =
  board_main :: "string option list list"
  player_moves :: "string \<rightharpoonup> (int \<times> int) list"
  current_player_main :: string
  game_status :: string
  total_moves :: int

text \<open>
  The dictionary \<^verbatim>\<open>make_move\<close> returns: three keys on a rejection (success, message,
  board), seven on success (success, message, board, removed_piece, current_player,
  game_status, winner).
\<close>

datatype move_result =
    Rejected string "string option list list"
  | Accepted string "string option list list" "(int \<times> int) option" string string "string option"

fun success :: "move_result \<Rightarrow> bool" where
  "success (Rejected msg b) = False"
| "success (Accepted msg b removed cp status w) = True"

fun message :: "move_result \<Rightarrow> string" where
  "message (Rejected msg b) = msg"
| "message (Accepted msg b removed cp status w) = msg"

definition dict_get :: "('k \<rightharpoonup> 'v) \<Rightarrow> 'k \<Rightarrow> py_error + 'v" where
  "dict_get d k = (case d k of None \<Rightarrow> Inl KeyError | Some v \<Rightarrow> Inr v)"

text \<open>Truth value of \<^verbatim>\<open>winner\<close>, which is \<^verbatim>\<open>None\<close> or a string.\<close>

definition truthy :: "string option \<Rightarrow> bool" where
  "truthy w = (case w of None \<Rightarrow> False | Some str \<Rightarrow> str \<noteq> [])"

text \<open>What an f-string prints for \<^verbatim>\<open>winner\<close>.\<close>

definition py_str :: "string option \<Rightarrow> string" where
  "py_str w = (case w of None \<Rightarrow> ''None'' | Some str \<Rightarrow> str)"

definition empty_board_main :: "string option list list" where
  "empty_board_main = map (\<lambda>_. map (\<lambda>_. None) range3) range3"

definition new_game_main :: game_main where
  "new_game_main = \<lparr>board_main = empty_board_main,
                    player_moves = [''X'' \<mapsto> [], ''Y'' \<mapsto> []],
                    current_player_main = ''X'', game_status = ''ongoing'', total_moves = 0\<rparr>"

definition get_oldest_piece_for_player :: "game_main \<Rightarrow> string \<Rightarrow> (int \<times> int) option" where
  "get_oldest_piece_for_player g player =
     (case player_moves g player of
        None \<Rightarrow> None
      | Some moves \<Rightarrow> if length moves > 0 then Some (hd moves) else None)"

definition will_remove_piece :: "game_main \<Rightarrow> string \<Rightarrow> py_error + bool" where
  "will_remove_piece g player = py_bind (dict_get (player_moves g) player) (\<lambda>moves. Inr (length moves \<ge> 3))"

definition is_valid_position :: "int \<Rightarrow> int \<Rightarrow> bool" where
  "is_valid_position row col = (0 \<le> row \<and> row \<le> 2 \<and> 0 \<le> col \<and> col \<le> 2)"

text \<open>
  One test \<^verbatim>\<open>a == b == c and a is not None\<close> followed by \<^verbatim>\<open>return a\<close>: the chained
  comparison reads \<open>c\<close> only when the first two agree. \<open>Some v\<close> is a return of \<open>v\<close>,
  \<open>None\<close> lets the search go on.
\<close>

definition line_check ::
  "py_error + string option \<Rightarrow> py_error + string option \<Rightarrow> py_error + string option
     \<Rightarrow> py_error + string option option" where
  "line_check a b c =
     py_bind a (\<lambda>x. py_bind b (\<lambda>y.
       if x \<noteq> y then Inr None else
       py_bind c (\<lambda>z.
         if y \<noteq> z then Inr None else
         py_bind a (\<lambda>x'. if x' = None then Inr None else py_bind a (\<lambda>v. Inr (Some v))))))"

fun py_first_return :: "(py_error + 'r option) list \<Rightarrow> py_error + 'r option" where
  "py_first_return [] = Inr None"
| "py_first_return (x # xs) =
     (case x of Inl e \<Rightarrow> Inl e | Inr None \<Rightarrow> py_first_return xs | Inr (Some v) \<Rightarrow> Inr (Some v))"

definition check_winner :: "string option list list \<Rightarrow> py_error + string option" where
  "check_winner b =
     py_bind (py_first_return (map (\<lambda>row.
                line_check (py_getitem row 0) (py_getitem row 1) (py_getitem row 2)) b))
     (\<lambda>found. case found of Some v \<Rightarrow> Inr v | None \<Rightarrow>
     py_bind (py_first_return (map (\<lambda>col.
                line_check (board_get b 0 col) (board_get b 1 col) (board_get b 2 col)) range3))
     (\<lambda>found. case found of Some v \<Rightarrow> Inr v | None \<Rightarrow>
     py_bind (line_check (board_get b 0 0) (board_get b 1 1) (board_get b 2 2))
     (\<lambda>found. case found of Some v \<Rightarrow> Inr v | None \<Rightarrow>
     py_bind (line_check (board_get b 0 2) (board_get b 1 1) (board_get b 2 0))
     (\<lambda>found. case found of Some v \<Rightarrow> Inr v | None \<Rightarrow> Inr None))))"

definition is_board_full :: "string option list list \<Rightarrow> bool" where
  "is_board_full b = list_all (\<lambda>row. list_all (\<lambda>cell. cell \<noteq> None) row) b"

definition get_board_state :: "game_main \<Rightarrow> string option list list" where
  "get_board_state g = map (\<lambda>row. row) (board_main g)"

definition make_move_main :: "game_main \<Rightarrow> int \<Rightarrow> int \<Rightarrow> py_error + (move_result \<times> game_main)" where
  "make_move_main g row col =
     (if \<not> is_valid_position row col
      then Inr (Rejected ''Invalid position. Row and column must be between 0-2.'' (get_board_state g), g)
      else
      py_bind (board_get (board_main g) row col) (\<lambda>target.
      if target \<noteq> None
      then Inr (Rejected ''Position already occupied.'' (get_board_state g), g)
      else if game_status g \<noteq> ''ongoing''
      then Inr (Rejected (''Game is over. Status: '' @ game_status g) (get_board_state g), g)
      else
      let mover = current_player_main g in
      py_bind (board_set (board_main g) row col (Some mover)) (\<lambda>b1.
      py_bind (dict_get (player_moves g) mover) (\<lambda>moves.
      let moves1 = moves @ [(row, col)];
          total = total_moves g + 1
      in
      py_bind (if length moves1 > 3
               then (case moves1 of
                       [] \<Rightarrow> Inl IndexError
                     | (old_row, old_col) # rest \<Rightarrow>
                         py_bind (board_set b1 old_row old_col None)
                           (\<lambda>b. Inr (b, rest, Some (old_row, old_col))))
               else Inr (b1, moves1, None)) (\<lambda>(b2, moves2, removed_piece).
      py_bind (check_winner b2) (\<lambda>winner.
      let status = (if truthy winner then py_str winner @ ''_wins''
                    else if is_board_full b2 \<and> \<not> truthy winner then ''draw''
                    else game_status g);
          g' = \<lparr>board_main = b2,
                player_moves = (player_moves g)(mover \<mapsto> moves2),
                current_player_main = (if mover = ''X'' then ''Y'' else ''X''),
                game_status = status,
                total_moves = total\<rparr>
      in Inr (Accepted ''Move successful'' (get_board_state g') removed_piece
                (current_player_main g') (game_status g')
                (if truthy winner then winner else None), g')))))))"

datatype reset_result = Reset_done string "string option list list" string string

definition reset_game :: "game_main \<Rightarrow> reset_result \<times> game_main" where
  "reset_game g =
     (let g' = \<lparr>board_main = empty_board_main,
                player_moves = [''X'' \<mapsto> [], ''Y'' \<mapsto> []],
                current_player_main = ''X'', game_status = ''ongoing'', total_moves = 0\<rparr>
      in (Reset_done ''Game reset successfully'' (get_board_state g')
            (current_player_main g') (game_status g'), g'))"

inductive reachable_main :: "game_main \<Rightarrow> bool" where
  reach_main_new: "reachable_main new_game_main"
| reach_main_move:
    "reachable_main g \<Longrightarrow> make_move_main g row col = Inr (res, g') \<Longrightarrow> reachable_main g'"
| reach_main_reset: "reachable_main g \<Longrightarrow> reachable_main (snd (reset_game g))"

fun play_main :: "game_main \<Rightarrow> (int \<times> int) list \<Rightarrow> py_error + (bool list \<times> game_main)" where
  "play_main g [] = Inr ([], g)"
| "play_main g ((row, col) # ms) =
     py_bind (make_move_main g row col) (\<lambda>(res, g').
     py_bind (play_main g' ms) (\<lambda>(oks, g''). Inr (success res # oks, g'')))"

section \<open>Vocabulary for the properties\<close>

text \<open>
  Coordinates inside the grid, boards of three rows of three cells, the cell at a
  coordinate, the eight winning lines, and the invariant that every reachable state of
  the first engine satisfies. The second engine is related to the first by \<open>to_main\<close>,
  which renames the mark \<^verbatim>\<open>O\<close> to \<^verbatim>\<open>Y\<close>, the blank to \<^verbatim>\<open>None\<close> and the state labels.
\<close>

definition in_range :: "int \<times> int \<Rightarrow> bool" where
  "in_range q = ((0 \<le> fst q \<and> fst q \<le> 2) \<and> (0 \<le> snd q \<and> snd q \<le> 2))"

definition wf_board :: "'a list list \<Rightarrow> bool" where
  "wf_board b = (length b = 3 \<and> (\<forall>line \<in> set b. length line = 3))"

definition cell :: "'a list list \<Rightarrow> int \<times> int \<Rightarrow> 'a" where
  "cell b q = b ! nat (fst q) ! nat (snd q)"

definition put :: "'a list list \<Rightarrow> int \<times> int \<Rightarrow> 'a \<Rightarrow> 'a list list" where
  "put b q v = b[nat (fst q) := (b ! nat (fst q))[nat (snd q) := v]]"

definition win_lines :: "(int \<times> int) list list" where
  "win_lines = [[(0,0),(0,1),(0,2)], [(1,0),(1,1),(1,2)], [(2,0),(2,1),(2,2)],
                [(0,0),(1,0),(2,0)], [(0,1),(1,1),(2,1)], [(0,2),(1,2),(2,2)],
                [(0,0),(1,1),(2,2)], [(0,2),(1,1),(2,0)]]"

definition has_line :: "'a list list \<Rightarrow> 'a \<Rightarrow> bool" where
  "has_line b mark = list_ex (\<lambda>l. list_all (\<lambda>q. cell b q = mark) l) win_lines"

definition all_cells :: "(int \<times> int) list" where
  "all_cells = concat (map (\<lambda>row. map (\<lambda>col. (row, col)) range3) range3)"

definition owner_mark :: "(int \<times> int) list \<Rightarrow> (int \<times> int) list \<Rightarrow> int \<times> int \<Rightarrow> string" where
  "owner_mark hx ho q =
     (if q \<in> set hx then player_value Player_X
      else if q \<in> set ho then player_value Player_O
      else player_value Player_EMPTY)"

definition consistent :: "string list list \<Rightarrow> (int \<times> int) list \<Rightarrow> (int \<times> int) list \<Rightarrow> bool" where
  "consistent b hx ho = list_all (\<lambda>q. cell b q = owner_mark hx ho q) all_cells"

definition game_inv :: "game \<Rightarrow> bool" where
  "game_inv s =
     (wf_board (board s)
      \<and> list_all in_range (move_history_x s) \<and> list_all in_range (move_history_o s)
      \<and> distinct (move_history_x s @ move_history_o s)
      \<and> length (move_history_x s) \<le> 3 \<and> length (move_history_o s) \<le> 3
      \<and> consistent (board s) (move_history_x s) (move_history_o s)
      \<and> (current_player s = Player_X \<or> current_player s = Player_O)
      \<and> (state s = IN_PROGRESS \<longrightarrow>
            \<not> has_line (board s) (player_value Player_X) \<and> \<not> has_line (board s) (player_value Player_O))
      \<and> \<not> (has_line (board s) (player_value Player_X) \<and> has_line (board s) (player_value Player_O))
      \<and> state s \<noteq> DRAW)"

definition after_move :: "game \<Rightarrow> int \<Rightarrow> int \<Rightarrow> game" where
  "after_move s row col =
     (let mover = current_player s;
          h = (if mover = Player_X then move_history_x s else move_history_o s);
          b1 = (if length h \<ge> 3 then put (board s) (hd h) (player_value Player_EMPTY) else board s);
          b2 = put b1 (row, col) (player_value mover);
          h2 = (if length h \<ge> 3 then tl h else h) @ [(row, col)];
          st = (if has_line b2 (player_value mover) then (if mover = Player_X then X_WINS else O_WINS)
                else if list_all (\<lambda>q. cell b2 q \<noteq> player_value Player_EMPTY) all_cells then DRAW
                else state s)
      in \<lparr>board = b2,
          move_history_x = (if mover = Player_X then h2 else move_history_x s),
          move_history_o = (if mover = Player_X then move_history_o s else h2),
          current_player = other_player mover,
          state = st\<rparr>)"

definition acceptable :: "game \<Rightarrow> int \<Rightarrow> int \<Rightarrow> bool" where
  "acceptable s row col =
     (state s = IN_PROGRESS \<and> in_range (row, col) \<and> cell (board s) (row, col) = player_value Player_EMPTY)"

definition three_alike :: "'a option \<Rightarrow> 'a option \<Rightarrow> 'a option \<Rightarrow> 'a option option" where
  "three_alike x y z = (if x = y \<and> y = z \<and> x \<noteq> None then Some x else None)"

definition line_mark :: "'a option list list \<Rightarrow> (int \<times> int) list \<Rightarrow> 'a option option" where
  "line_mark bm l =
     (case l of [p, q, r] \<Rightarrow> three_alike (cell bm p) (cell bm q) (cell bm r) | _ \<Rightarrow> None)"

fun first_return :: "'r option option list \<Rightarrow> 'r option" where
  "first_return [] = None"
| "first_return (t # ts) = (case t of Some v \<Rightarrow> v | None \<Rightarrow> first_return ts)"

definition winner_of :: "(int \<times> int) list list \<Rightarrow> 'a option list list \<Rightarrow> 'a option" where
  "winner_of ls bm = first_return (map (line_mark bm) ls)"

definition cell_main :: "string \<Rightarrow> string option" where
  "cell_main v = (if v = player_value Player_EMPTY then None
                  else if v = player_value Player_O then Some ''Y'' else Some v)"

fun player_main :: "Player \<Rightarrow> string" where
  "player_main Player_X = ''X''"
| "player_main Player_O = ''Y''"
| "player_main Player_EMPTY = '' ''"

fun status_main :: "GameState \<Rightarrow> string" where
  "status_main IN_PROGRESS = ''ongoing''"
| "status_main X_WINS = ''X_wins''"
| "status_main O_WINS = ''Y_wins''"
| "status_main DRAW = ''draw''"

definition to_main :: "game \<Rightarrow> int \<Rightarrow> game_main" where
  "to_main s n =
     \<lparr>board_main = map (map cell_main) (board s),
      player_moves = [''X'' \<mapsto> move_history_x s, ''Y'' \<mapsto> move_history_o s],
      current_player_main = player_main (current_player s),
      game_status = status_main (state s),
      total_moves = n\<rparr>"

definition reject_message :: "game \<Rightarrow> int \<Rightarrow> int \<Rightarrow> string" where
  "reject_message s row col =
     (if \<not> in_range (row, col) then ''Invalid position. Row and column must be between 0-2.''
      else if cell (board s) (row, col) \<noteq> player_value Player_EMPTY then ''Position already occupied.''
      else ''Game is over. Status: '' @ status_main (state s))"

definition removed_by :: "game \<Rightarrow> (int \<times> int) option" where
  "removed_by s =
     (let h = (if current_player s = Player_X then move_history_x s else move_history_o s)
      in if length h \<ge> 3 then Some (hd h) else None)"

definition winner_after :: "game \<Rightarrow> string option" where
  "winner_after s = (if state s = X_WINS then Some ''X'' else if state s = O_WINS then Some ''Y'' else None)"

definition accepted_result :: "game \<Rightarrow> game \<Rightarrow> move_result" where
  "accepted_result s s' =
     Accepted ''Move successful'' (map (map cell_main) (board s')) (removed_by s)
       (player_main (current_player s')) (status_main (state s')) (winner_after s')"

text \<open>The part of the second engine's \<^verbatim>\<open>make_move\<close> after the piece is placed and the oldest one cleared.\<close>

definition finish_main ::
  "game_main \<Rightarrow> string option list list \<times> (int \<times> int) list \<times> (int \<times> int) option
     \<Rightarrow> py_error + (move_result \<times> game_main)" where
  "finish_main g = (\<lambda>(b2, moves2, removed_piece).
      py_bind (check_winner b2) (\<lambda>winner.
      let status = (if truthy winner then py_str winner @ ''_wins''
                    else if is_board_full b2 \<and> \<not> truthy winner then ''draw''
                    else game_status g);
          g' = \<lparr>board_main = b2,
                player_moves = (player_moves g)(current_player_main g \<mapsto> moves2),
                current_player_main = (if current_player_main g = ''X'' then ''Y'' else ''X''),
                game_status = status,
                total_moves = total_moves g + 1\<rparr>
      in Inr (Accepted ''Move successful'' (get_board_state g') removed_piece
                (current_player_main g') (game_status g')
                (if truthy winner then winner else None), g')))"

text \<open>
  The cells of a board that hold a given mark, read the way the engines read them, and
  the number of cells that are not vacant.
\<close>

definition marked :: "'a list list \<Rightarrow> 'a \<Rightarrow> (int \<times> int) list" where
  "marked b m = filter (\<lambda>q. board_get b (fst q) (snd q) = Inr m) all_cells"

definition occupied :: "'a list list \<Rightarrow> 'a \<Rightarrow> nat" where
  "occupied b vacant = length (filter (\<lambda>v. v \<noteq> vacant) (concat b))"

text \<open>
  Sample games. After \<open>sample_moves\<close> both players hold three pieces and nobody has
  won; \<open>vanish_game\<close> is that game after X has moved on to (2, 2). After \<open>won_moves\<close> X
  has completed row 0; \<open>pre_win_game\<close> is that game one move earlier.
\<close>

definition sample_moves :: "(int \<times> int) list" where
  "sample_moves = [(0, 0), (1, 1), (0, 1), (0, 2), (1, 2), (2, 1)]"

definition sample_game :: game where
  "sample_game =
     \<lparr>board = [[''X'', ''X'', ''O''], ['' '', ''O'', ''X''], ['' '', ''O'', '' '']],
      move_history_x = [(0, 0), (0, 1), (1, 2)], move_history_o = [(1, 1), (0, 2), (2, 1)],
      current_player = Player_X, state = IN_PROGRESS\<rparr>"

definition won_moves :: "(int \<times> int) list" where
  "won_moves = [(0, 0), (1, 0), (0, 1), (1, 1), (0, 2)]"

definition won_game :: game where
  "won_game =
     \<lparr>board = [[''X'', ''X'', ''X''], [''O'', ''O'', '' ''], ['' '', '' '', '' '']],
      move_history_x = [(0, 0), (0, 1), (0, 2)], move_history_o = [(1, 0), (1, 1)],
      current_player = Player_O, state = X_WINS\<rparr>"

definition vanish_game :: game where
  "vanish_game =
     \<lparr>board = [['' '', ''X'', ''O''], ['' '', ''O'', ''X''], ['' '', ''O'', ''X'']],
      move_history_x = [(0, 1), (1, 2), (2, 2)], move_history_o = [(1, 1), (0, 2), (2, 1)],
      current_player = Player_O, state = IN_PROGRESS\<rparr>"

definition pre_win_game :: game where
  "pre_win_game =
     \<lparr>board = [[''X'', ''X'', '' ''], [''O'', ''O'', '' ''], ['' '', '' '', '' '']],
      move_history_x = [(0, 0), (0, 1)], move_history_o = [(1, 0), (1, 1)],
      current_player = Player_X, state = IN_PROGRESS\<rparr>"




text \<open>
  The key \<^verbatim>\<open>removed_piece\<close> of a result dictionary, and the change of a board in which one
  cell is placed, at most one cell is vacated and every other cell keeps its value.
\<close>

fun removed_piece :: "move_result \<Rightarrow> (int \<times> int) option" where
  "removed_piece (Rejected msg b) = None"
| "removed_piece (Accepted msg b removed cp status w) = removed"

definition board_changes ::
  "'a list list \<Rightarrow> 'a list list \<Rightarrow> (int \<times> int) option \<Rightarrow> int \<times> int \<Rightarrow> 'a \<Rightarrow> 'a \<Rightarrow> bool" where
  "board_changes b b' vanished placed mark vacant =
     list_all (\<lambda>q. board_get b' (fst q) (snd q) =
                 (if q = placed then Inr mark
                  else if Some q = vanished then Inr vacant
                  else board_get b (fst q) (snd q))) all_cells"

text \<open>
  A position that no run of moves reaches, with eight cells filled and no completed line,
  for each engine. It serves to run the full-board test on a board that is full.
\<close>

definition nearly_full_game :: game where
  "nearly_full_game =
     \<lparr>board = [[''X'', ''O'', ''X''], [''X'', ''O'', ''O''], [''O'', ''X'', '' '']],
      move_history_x = [], move_history_o = [],
      current_player = Player_X, state = IN_PROGRESS\<rparr>"

definition nearly_full_main :: game_main where
  "nearly_full_main =
     \<lparr>board_main = [[Some ''X'', Some ''Y'', Some ''X''], [Some ''X'', Some ''Y'', Some ''Y''],
                    [Some ''Y'', Some ''X'', None]],
      player_moves = [''X'' \<mapsto> [], ''Y'' \<mapsto> []],
      current_player_main = ''X'', game_status = ''ongoing'', total_moves = 0\<rparr>"

text \<open>
  What the dictionary returned by the second engine says about the attempt and the states
  around it: which of the three guards rejected and with which message, or, on success,
  the board, player, status and winner of the new state, and as \<^verbatim>\<open>removed_piece\<close> the head
  of the mover's history when that history was full before the move and nothing otherwise.
\<close>

definition well_reported :: "game_main \<Rightarrow> int \<Rightarrow> int \<Rightarrow> move_result \<Rightarrow> game_main \<Rightarrow> bool" where
  "well_reported g row col res g' =
     (case res of
        Rejected msg b \<Rightarrow>
          \<not> (is_valid_position row col \<and> board_get (board_main g) row col = Inr None \<and>
             game_status g = ''ongoing'') \<and>
          g' = g \<and> b = board_main g \<and>
          msg = (if \<not> is_valid_position row col
                 then ''Invalid position. Row and column must be between 0-2.''
                 else if board_get (board_main g) row col \<noteq> Inr None
                 then ''Position already occupied.''
                 else ''Game is over. Status: '' @ game_status g)
      | Accepted msg b removed cp status w \<Rightarrow>
          is_valid_position row col \<and> board_get (board_main g) row col = Inr None \<and>
          game_status g = ''ongoing'' \<and>
          msg = ''Move successful'' \<and> b = board_main g' \<and>
          cp = current_player_main g' \<and> cp \<noteq> current_player_main g \<and>
          status = game_status g' \<and> check_winner b = Inr w \<and>
          (w = None \<and> status = ''ongoing'' \<or>
           w = Some ''X'' \<and> status = ''X_wins'' \<or>
           w = Some ''Y'' \<and> status = ''Y_wins'') \<and>
          removed = (case player_moves g (current_player_main g) of
                       None \<Rightarrow> None
                     | Some k \<Rightarrow> if length k \<ge> 3 then Some (hd k) else None) \<and>
          board_changes (board_main g) b removed (row, col) (Some (current_player_main g)) None)"

section \<open>Boards of three by three\<close>

lemma int_0_2: "(0 \<le> a \<and> a \<le> 2) = (a = 0 \<or> a = 1 \<or> a = (2::int))"
  by arith

lemma in_range_cases: "in_range q \<longleftrightarrow> q \<in> set all_cells"
proof (cases q)
  case (Pair a b)
  show ?thesis
    unfolding Pair in_range_def all_cells_def range3_def fst_conv snd_conv int_0_2
    by auto
qed

lemma list_slot_nonneg: "0 \<le> i \<Longrightarrow> i < int n \<Longrightarrow> list_slot n i = Some (nat i)"
  by (simp add: list_slot_def)

lemma wf_board_row: "wf_board b \<Longrightarrow> i < 3 \<Longrightarrow> length (b ! i) = 3"
  by (simp add: wf_board_def)

lemma board_get_wf:
  assumes "wf_board b" "in_range (r, c)"
  shows "board_get b r c = Inr (cell b (r, c))"
proof -
  have "nat r < 3" using assms(2) unfolding in_range_def by (cases "r = 0"; cases "r = 1"; cases "r = 2") auto
  then have "length (b ! nat r) = 3" using assms(1) by (rule wf_board_row[rotated])
  then show ?thesis using assms
    by (simp add: board_get_def py_getitem_def py_bind_def list_slot_nonneg in_range_def cell_def
        wf_board_def)
qed

lemma board_set_wf:
  assumes "wf_board b" "in_range (r, c)"
  shows "board_set b r c v = Inr (put b (r, c) v)"
proof -
  have "nat r < 3" using assms(2) unfolding in_range_def by (cases "r = 0"; cases "r = 1"; cases "r = 2") auto
  then have "length (b ! nat r) = 3" using assms(1) by (rule wf_board_row[rotated])
  then show ?thesis using assms
    by (simp add: board_set_def py_getitem_def py_setitem_def py_bind_def list_slot_nonneg
        in_range_def put_def wf_board_def)
qed

lemma wf_put: "wf_board b \<Longrightarrow> in_range q \<Longrightarrow> wf_board (put b q v)"
  by (auto simp: wf_board_def put_def in_range_def dest!: set_update_subset_insert[THEN subsetD])

lemma cell_put:
  "wf_board b \<Longrightarrow> in_range q \<Longrightarrow> in_range q' \<Longrightarrow> cell (put b q v) q' = (if q' = q then v else cell b q')"
  by (cases q; cases q')
     (auto simp: wf_board_def put_def cell_def in_range_def nth_list_update)

lemma wf_board_shape:
  "wf_board b \<Longrightarrow> \<exists>a0 a1 a2 a3 a4 a5 a6 a7 a8. b = [[a0,a1,a2],[a3,a4,a5],[a6,a7,a8]]"
  by (auto simp: wf_board_def length_Suc_conv numeral_3_eq_3)

lemma check_win_wf:
  assumes "wf_board b"
  shows "check_win b p = Inr (has_line b (player_value p))"
proof -
  from wf_board_shape[OF assms] obtain a0 a1 a2 a3 a4 a5 a6 a7 a8
    where b: "b = [[a0,a1,a2],[a3,a4,a5],[a6,a7,a8]]" by blast
  show ?thesis
    unfolding b
    by (simp add: check_win_def has_line_def win_lines_def range3_def board_get_def py_getitem_def
        list_slot_def py_bind_def cell_def Let_def)
qed

lemma check_draw_wf:
  assumes "wf_board b"
  shows "check_draw b = Inr (list_all (\<lambda>q. cell b q \<noteq> player_value Player_EMPTY) all_cells)"
proof -
  from wf_board_shape[OF assms] obtain a0 a1 a2 a3 a4 a5 a6 a7 a8
    where b: "b = [[a0,a1,a2],[a3,a4,a5],[a6,a7,a8]]" by blast
  show ?thesis
    unfolding b
    by (simp add: check_draw_def all_cells_def range3_def board_get_def py_getitem_def
        list_slot_def py_bind_def cell_def Let_def)
qed

lemma is_valid_move_wf:
  "wf_board (board s) \<Longrightarrow> is_valid_move s row col = Inr (acceptable s row col)"
  by (auto simp: is_valid_move_def acceptable_def board_get_wf py_bind_def in_range_def)

lemma make_move_reject:
  "wf_board (board s) \<Longrightarrow> \<not> acceptable s row col \<Longrightarrow> make_move s row col = Inr (False, s)"
  by (simp add: make_move_def is_valid_move_wf py_bind_def)

lemma make_move_accept_hist:
  assumes wf: "wf_board (board s)" and hr: "list_all in_range h" and acc: "acceptable s row col"
    and h: "h = (if current_player s = Player_X then move_history_x s else move_history_o s)"
  shows "make_move s row col = Inr (True, after_move s row col)"
proof -
  have rc: "in_range (row, col)" using acc by (simp add: acceptable_def)
  show ?thesis
  proof (cases "length h \<ge> 3")
    case False
    then show ?thesis using wf rc h
      by (cases "current_player s = Player_X")
         (simp_all add: make_move_def is_valid_move_wf acc py_bind_def Let_def board_set_wf
          wf_put check_win_wf check_draw_wf after_move_def)
  next
    case True
    then obtain q rest where hq: "h = q # rest" by (cases h) auto
    obtain qr qc where q: "q = (qr, qc)" by (cases q)
    have qin: "in_range (qr, qc)" using hr hq q by auto
    have wf1: "wf_board (put (board s) (qr, qc) (player_value Player_EMPTY))"
      using wf qin by (rule wf_put)
    show ?thesis using True hq q wf rc qin wf1 h
      by (cases "current_player s = Player_X")
         (simp_all add: make_move_def is_valid_move_wf acc py_bind_def Let_def board_set_wf
          wf_put check_win_wf check_draw_wf after_move_def)
  qed
qed

lemma make_move_accept:
  assumes inv: "game_inv s" and acc: "acceptable s row col"
  shows "make_move s row col = Inr (True, after_move s row col)"
proof (rule make_move_accept_hist[OF _ _ acc refl])
  show "wf_board (board s)" using inv by (simp add: game_inv_def)
  show "list_all in_range (if current_player s = Player_X then move_history_x s else move_history_o s)"
    using inv by (simp add: game_inv_def)
qed

lemma consistentD:
  "consistent b hx ho \<Longrightarrow> in_range q \<Longrightarrow> cell b q = owner_mark hx ho q"
  by (simp add: consistent_def list_all_iff in_range_cases)

lemma consistentI:
  "(\<And>q. in_range q \<Longrightarrow> cell b q = owner_mark hx ho q) \<Longrightarrow> consistent b hx ho"
  by (simp add: consistent_def list_all_iff in_range_cases)

lemma win_lines_in_range: "l \<in> set win_lines \<Longrightarrow> q \<in> set l \<Longrightarrow> in_range q"
  by (auto simp: win_lines_def in_range_def)

lemma has_line_x:
  assumes "consistent b hx ho"
  shows "has_line b (player_value Player_X) = list_ex (\<lambda>l. set l \<subseteq> set hx) win_lines"
proof -
  have "\<And>l q. l \<in> set win_lines \<Longrightarrow> q \<in> set l \<Longrightarrow>
          (cell b q = player_value Player_X) = (q \<in> set hx)"
    using consistentD[OF assms] win_lines_in_range by (auto simp: owner_mark_def)
  then show ?thesis
    unfolding has_line_def list_ex_iff list_all_iff by blast
qed

lemma has_line_o:
  assumes "consistent b hx ho" and "set hx \<inter> set ho = {}"
  shows "has_line b (player_value Player_O) = list_ex (\<lambda>l. set l \<subseteq> set ho) win_lines"
proof -
  have "\<And>l q. l \<in> set win_lines \<Longrightarrow> q \<in> set l \<Longrightarrow>
          (cell b q = player_value Player_O) = (q \<in> set ho)"
    using consistentD[OF assms(1)] win_lines_in_range assms(2) by (auto simp: owner_mark_def)
  then show ?thesis
    unfolding has_line_def list_ex_iff list_all_iff by blast
qed

lemma distinct_all_cells: "distinct all_cells" "length all_cells = 9"
  by (simp_all add: all_cells_def range3_def)

lemma never_full:
  assumes c: "consistent b hx ho" and lx: "length hx \<le> 3" and lo: "length ho \<le> 3"
  shows "\<not> list_all (\<lambda>q. cell b q \<noteq> player_value Player_EMPTY) all_cells"
proof
  assume full: "list_all (\<lambda>q. cell b q \<noteq> player_value Player_EMPTY) all_cells"
  have "set all_cells \<subseteq> set hx \<union> set ho"
  proof
    fix q assume q: "q \<in> set all_cells"
    then have "cell b q \<noteq> player_value Player_EMPTY" using full by (simp add: list_all_iff)
    moreover have "cell b q = owner_mark hx ho q" using c q by (simp add: consistent_def list_all_iff)
    ultimately show "q \<in> set hx \<union> set ho" by (auto simp: owner_mark_def split: if_splits)
  qed
  then have "card (set all_cells) \<le> card (set hx \<union> set ho)"
    by (intro card_mono) auto
  also have "\<dots> \<le> card (set hx) + card (set ho)" by (rule card_Un_le)
  also have "\<dots> \<le> length hx + length ho" by (intro add_mono card_length)
  finally have "card (set all_cells) \<le> 6" using lx lo by simp
  moreover have "card (set all_cells) = 9"
    using distinct_all_cells by (simp add: distinct_card)
  ultimately show False by simp
qed

text \<open>The board and history after X places a piece.\<close>

lemma consistent_step_x:
  assumes wf: "wf_board b" and c: "consistent b hx ho" and d: "distinct (hx @ ho)"
    and rx: "list_all in_range hx" and p: "in_range p"
    and e: "cell b p = player_value Player_EMPTY"
  shows "consistent
           (put (if length hx \<ge> 3 then put b (hd hx) (player_value Player_EMPTY) else b) p (player_value Player_X))
           ((if length hx \<ge> 3 then tl hx else hx) @ [p]) ho"
    and "distinct (((if length hx \<ge> 3 then tl hx else hx) @ [p]) @ ho)"
proof -
  have pn: "p \<notin> set hx" "p \<notin> set ho"
    using consistentD[OF c p] e by (auto simp: owner_mark_def split: if_splits)
  show "distinct (((if length hx \<ge> 3 then tl hx else hx) @ [p]) @ ho)"
    using d pn by (cases hx) auto
  show "consistent
           (put (if length hx \<ge> 3 then put b (hd hx) (player_value Player_EMPTY) else b) p (player_value Player_X))
           ((if length hx \<ge> 3 then tl hx else hx) @ [p]) ho"
  proof (cases "length hx \<ge> 3")
    case False
    then show ?thesis using wf c p
      by (auto intro!: consistentI simp: cell_put owner_mark_def dest: consistentD)
  next
    case True
    then obtain a rest where h: "hx = a # rest" by (cases hx) auto
    have a: "in_range a" using rx h by simp
    have an: "a \<notin> set rest" "a \<notin> set ho" using d h by auto
    show ?thesis
    proof (rule consistentI)
      fix q assume q: "in_range q"
      have "cell b q = owner_mark hx ho q" using c q by (rule consistentD)
      then show "cell (put (if length hx \<ge> 3 then put b (hd hx) (player_value Player_EMPTY) else b) p (player_value Player_X)) q
         = owner_mark ((if length hx \<ge> 3 then tl hx else hx) @ [p]) ho q"
        using True h a an wf p q pn
        by (auto simp: cell_put wf_put owner_mark_def)
    qed
  qed
qed

lemma consistent_step_o:
  assumes wf: "wf_board b" and c: "consistent b hx ho" and d: "distinct (hx @ ho)"
    and ro: "list_all in_range ho" and p: "in_range p"
    and e: "cell b p = player_value Player_EMPTY"
  shows "consistent
           (put (if length ho \<ge> 3 then put b (hd ho) (player_value Player_EMPTY) else b) p (player_value Player_O))
           hx ((if length ho \<ge> 3 then tl ho else ho) @ [p])"
    and "distinct (hx @ ((if length ho \<ge> 3 then tl ho else ho) @ [p]))"
proof -
  have pn: "p \<notin> set hx" "p \<notin> set ho"
    using consistentD[OF c p] e by (auto simp: owner_mark_def split: if_splits)
  show "distinct (hx @ ((if length ho \<ge> 3 then tl ho else ho) @ [p]))"
    using d pn by (cases ho) auto
  show "consistent
           (put (if length ho \<ge> 3 then put b (hd ho) (player_value Player_EMPTY) else b) p (player_value Player_O))
           hx ((if length ho \<ge> 3 then tl ho else ho) @ [p])"
  proof (cases "length ho \<ge> 3")
    case False
    then show ?thesis using wf c p pn
      by (auto intro!: consistentI simp: cell_put owner_mark_def dest: consistentD)
  next
    case True
    then obtain a rest where h: "ho = a # rest" by (cases ho) auto
    have a: "in_range a" using ro h by simp
    have an: "a \<notin> set rest" "a \<notin> set hx" using d h by auto
    show ?thesis
    proof (rule consistentI)
      fix q assume q: "in_range q"
      have "cell b q = owner_mark hx ho q" using c q by (rule consistentD)
      then show "cell (put (if length ho \<ge> 3 then put b (hd ho) (player_value Player_EMPTY) else b) p (player_value Player_O)) q
         = owner_mark hx ((if length ho \<ge> 3 then tl ho else ho) @ [p]) q"
        using True h a an wf p q pn
        by (auto simp: cell_put wf_put owner_mark_def)
    qed
  qed
qed

lemma game_inv_consistent:
  "game_inv s \<Longrightarrow> consistent (board s) (move_history_x s) (move_history_o s)"
  by (simp add: game_inv_def consistent_def)

lemma game_inv_new: "game_inv new_game"
  by (simp add: game_inv_def consistent_def new_game_def empty_board_def range3_def wf_board_def
      all_cells_def cell_def owner_mark_def has_line_def win_lines_def)

lemma game_inv_reset: "game_inv (reset s)"
  by (simp add: game_inv_def consistent_def reset_def empty_board_def range3_def wf_board_def
      all_cells_def cell_def owner_mark_def has_line_def win_lines_def)

lemma game_inv_after_move:
  assumes inv: "game_inv s" and acc: "acceptable s row col"
  shows "game_inv (after_move s row col)"
proof -
  let ?b = "board s" and ?hx = "move_history_x s" and ?ho = "move_history_o s"
  have wf: "wf_board ?b" and c: "consistent ?b ?hx ?ho" and d: "distinct (?hx @ ?ho)"
    and rx: "list_all in_range ?hx" and ro: "list_all in_range ?ho"
    and lx: "length ?hx \<le> 3" and lo: "length ?ho \<le> 3"
    and cp: "current_player s = Player_X \<or> current_player s = Player_O"
    using inv by (simp_all add: game_inv_def consistent_def)
  have p: "in_range (row, col)" and e: "cell ?b (row, col) = player_value Player_EMPTY"
    and st: "state s = IN_PROGRESS"
    using acc by (simp_all add: acceptable_def)
  have nolines: "\<not> has_line ?b (player_value Player_X)" "\<not> has_line ?b (player_value Player_O)"
    using inv st by (simp_all add: game_inv_def)
  have dis: "set ?hx \<inter> set ?ho = {}" using d by auto
  from cp show ?thesis
  proof
    assume m: "current_player s = Player_X"
    define b2 where "b2 = put (if length ?hx \<ge> 3 then put ?b (hd ?hx) (player_value Player_EMPTY) else ?b)
                 (row, col) (player_value Player_X)"
    define h2 where "h2 = (if length ?hx \<ge> 3 then tl ?hx else ?hx) @ [(row, col)]"
    have c2: "consistent b2 h2 ?ho" and d2: "distinct (h2 @ ?ho)"
      using consistent_step_x[OF wf c d rx p e] unfolding b2_def h2_def by simp_all
    have hdr: "length ?hx \<ge> 3 \<Longrightarrow> in_range (hd ?hx)" using rx by (cases ?hx) auto
    have wf2: "wf_board b2" unfolding b2_def using wf p hdr by (auto intro!: wf_put)
    have r2: "list_all in_range h2" unfolding h2_def using rx p by (cases ?hx) auto
    have l2: "length h2 \<le> 3" unfolding h2_def using lx by (cases ?hx) auto
    have dis2: "set h2 \<inter> set ?ho = {}" using d2 by auto
    have o2: "\<not> has_line b2 (player_value Player_O)"
      using nolines(2) has_line_o[OF c dis] has_line_o[OF c2 dis2] by simp
    have nf: "\<not> list_all (\<lambda>q. cell b2 q \<noteq> player_value Player_EMPTY) all_cells"
      using never_full[OF c2 l2 lo] .
    have eq: "after_move s row col =
        \<lparr>board = b2, move_history_x = h2, move_history_o = ?ho, current_player = Player_O,
         state = (if has_line b2 (player_value Player_X) then X_WINS else IN_PROGRESS)\<rparr>"
      using m nf st unfolding b2_def h2_def
      by (cases "3 \<le> length (move_history_x s)")
         (simp_all add: after_move_def Let_def other_player_def)
    show ?thesis
      unfolding eq using wf2 c2 d2 r2 ro l2 lo o2
      by (simp add: game_inv_def consistent_def)
  next
    assume m: "current_player s = Player_O"
    define b2 where "b2 = put (if length ?ho \<ge> 3 then put ?b (hd ?ho) (player_value Player_EMPTY) else ?b)
                 (row, col) (player_value Player_O)"
    define h2 where "h2 = (if length ?ho \<ge> 3 then tl ?ho else ?ho) @ [(row, col)]"
    have c2: "consistent b2 ?hx h2" and d2: "distinct (?hx @ h2)"
      using consistent_step_o[OF wf c d ro p e] unfolding b2_def h2_def by simp_all
    have hdr: "length ?ho \<ge> 3 \<Longrightarrow> in_range (hd ?ho)" using ro by (cases ?ho) auto
    have wf2: "wf_board b2" unfolding b2_def using wf p hdr by (auto intro!: wf_put)
    have r2: "list_all in_range h2" unfolding h2_def using ro p by (cases ?ho) auto
    have l2: "length h2 \<le> 3" unfolding h2_def using lo by (cases ?ho) auto
    have x2: "\<not> has_line b2 (player_value Player_X)"
      using nolines(1) has_line_x[OF c] has_line_x[OF c2] by simp
    have nf: "\<not> list_all (\<lambda>q. cell b2 q \<noteq> player_value Player_EMPTY) all_cells"
      using never_full[OF c2 lx l2] .
    have eq: "after_move s row col =
        \<lparr>board = b2, move_history_x = ?hx, move_history_o = h2, current_player = Player_X,
         state = (if has_line b2 (player_value Player_O) then O_WINS else IN_PROGRESS)\<rparr>"
      using m nf st unfolding b2_def h2_def
      by (cases "3 \<le> length (move_history_o s)")
         (simp_all add: after_move_def Let_def other_player_def)
    show ?thesis
      unfolding eq using wf2 c2 d2 r2 rx l2 lx x2
      by (simp add: game_inv_def consistent_def)
  qed
qed

lemma make_move_cases:
  assumes "game_inv s"
  shows "make_move s row col =
           (if acceptable s row col then Inr (True, after_move s row col) else Inr (False, s))"
proof (cases "acceptable s row col")
  case True
  then show ?thesis using make_move_accept[OF assms] by simp
next
  case False
  have "wf_board (board s)" using assms by (simp add: game_inv_def)
  then show ?thesis using False make_move_reject by simp
qed

lemma reachable_inv: "reachable s \<Longrightarrow> game_inv s"
proof (induction rule: reachable.induct)
  case reach_new
  show ?case by (rule game_inv_new)
next
  case (reach_move s row col ok s')
  show ?case
  proof (cases "acceptable s row col")
    case True
    then have "s' = after_move s row col"
      using reach_move.hyps(2) make_move_cases[OF reach_move.IH, of row col] by simp
    then show ?thesis using game_inv_after_move[OF reach_move.IH True] by simp
  next
    case False
    then have "s' = s"
      using reach_move.hyps(2) make_move_cases[OF reach_move.IH, of row col] by simp
    then show ?thesis using reach_move.IH by simp
  qed
next
  case (reach_reset s)
  show ?case by (rule game_inv_reset)
qed

lemma line_check_Inr: "line_check (Inr x) (Inr y) (Inr z) = Inr (three_alike x y z)"
  by (simp add: line_check_def py_bind_def three_alike_def)

lemma check_winner_chain:
  "py_bind (py_first_return [Inr t0, Inr t1, Inr t2])
     (\<lambda>found. case found of Some v \<Rightarrow> Inr v | None \<Rightarrow>
     py_bind (py_first_return [Inr t3, Inr t4, Inr t5])
     (\<lambda>found. case found of Some v \<Rightarrow> Inr v | None \<Rightarrow>
     py_bind (Inr t6)
     (\<lambda>found. case found of Some v \<Rightarrow> Inr v | None \<Rightarrow>
     py_bind (Inr t7)
     (\<lambda>found. case found of Some v \<Rightarrow> Inr v | None \<Rightarrow> Inr None))))
   = Inr (first_return [t0, t1, t2, t3, t4, t5, t6, t7])"
  by (simp add: py_bind_def split: option.splits)

lemma check_winner_shape:
  "check_winner [[a0,a1,a2],[a3,a4,a5],[a6,a7,a8]] =
     Inr (first_return [three_alike a0 a1 a2, three_alike a3 a4 a5, three_alike a6 a7 a8,
                        three_alike a0 a3 a6, three_alike a1 a4 a7, three_alike a2 a5 a8,
                        three_alike a0 a4 a8, three_alike a2 a4 a6])"
proof -
  have g: "py_getitem [x0, x1, x2] 0 = Inr x0" "py_getitem [x0, x1, x2] 1 = Inr x1"
    "py_getitem [x0, x1, x2] 2 = Inr x2" for x0 x1 x2 :: 'b
    by (simp_all add: py_getitem_def list_slot_def)
  have bg: "board_get [[a0,a1,a2],[a3,a4,a5],[a6,a7,a8]] 0 0 = Inr a0"
    "board_get [[a0,a1,a2],[a3,a4,a5],[a6,a7,a8]] 0 1 = Inr a1"
    "board_get [[a0,a1,a2],[a3,a4,a5],[a6,a7,a8]] 0 2 = Inr a2"
    "board_get [[a0,a1,a2],[a3,a4,a5],[a6,a7,a8]] 1 0 = Inr a3"
    "board_get [[a0,a1,a2],[a3,a4,a5],[a6,a7,a8]] 1 1 = Inr a4"
    "board_get [[a0,a1,a2],[a3,a4,a5],[a6,a7,a8]] 1 2 = Inr a5"
    "board_get [[a0,a1,a2],[a3,a4,a5],[a6,a7,a8]] 2 0 = Inr a6"
    "board_get [[a0,a1,a2],[a3,a4,a5],[a6,a7,a8]] 2 1 = Inr a7"
    "board_get [[a0,a1,a2],[a3,a4,a5],[a6,a7,a8]] 2 2 = Inr a8"
    by (simp_all add: board_get_def g py_bind_def)
  show ?thesis
    unfolding check_winner_def range3_def list.map g bg line_check_Inr
    by (rule check_winner_chain)
qed

lemma winner_of_shape:
  "winner_of win_lines [[a0,a1,a2],[a3,a4,a5],[a6,a7,a8]] =
     first_return [three_alike a0 a1 a2, three_alike a3 a4 a5, three_alike a6 a7 a8,
                   three_alike a0 a3 a6, three_alike a1 a4 a7, three_alike a2 a5 a8,
                   three_alike a0 a4 a8, three_alike a2 a4 a6]"
  unfolding winner_of_def win_lines_def list.map
  by (simp add: line_mark_def cell_def)

lemma check_winner_wf:
  assumes "wf_board bm"
  shows "check_winner bm = Inr (winner_of win_lines bm)"
proof -
  from wf_board_shape[OF assms] obtain a0 a1 a2 a3 a4 a5 a6 a7 a8
    where b: "bm = [[a0,a1,a2],[a3,a4,a5],[a6,a7,a8]]" by blast
  show ?thesis unfolding b check_winner_shape winner_of_shape ..
qed

lemma is_board_full_wf:
  assumes "wf_board bm"
  shows "is_board_full bm = list_all (\<lambda>q. cell bm q \<noteq> None) all_cells"
proof -
  from wf_board_shape[OF assms] obtain a0 a1 a2 a3 a4 a5 a6 a7 a8
    where b: "bm = [[a0,a1,a2],[a3,a4,a5],[a6,a7,a8]]" by blast
  show ?thesis
    unfolding b
    by (simp add: is_board_full_def all_cells_def range3_def cell_def)
qed

lemma wf_board_map: "wf_board (map (map f) b) = wf_board b"
  by (auto simp: wf_board_def)

lemma nat_lt3: "0 \<le> r \<and> r \<le> 2 \<Longrightarrow> nat r < 3"
  by arith

lemma cell_map:
  assumes "wf_board b" "in_range q"
  shows "cell (map (map f) b) q = f (cell b q)"
proof -
  have r: "nat (fst q) < 3" and c: "nat (snd q) < 3"
    using assms(2) by (auto simp: in_range_def intro: nat_lt3)
  have "length (b ! nat (fst q)) = 3" using assms(1) r by (rule wf_board_row)
  then show ?thesis using assms(1) r c by (simp add: cell_def wf_board_def)
qed

lemma put_map:
  assumes "wf_board b" "in_range q"
  shows "put (map (map f) b) q (f v) = map (map f) (put b q v)"
proof -
  have r: "nat (fst q) < 3"
    using assms(2) by (auto simp: in_range_def intro: nat_lt3)
  then show ?thesis using assms(1)
    by (simp add: put_def wf_board_def map_update)
qed

lemma board_ext:
  assumes "wf_board b" "wf_board b'" "list_all (\<lambda>q. cell b q = cell b' q) all_cells"
  shows "b = b'"
proof -
  from wf_board_shape[OF assms(1)] obtain a0 a1 a2 a3 a4 a5 a6 a7 a8
    where b: "b = [[a0,a1,a2],[a3,a4,a5],[a6,a7,a8]]" by blast
  from wf_board_shape[OF assms(2)] obtain c0 c1 c2 c3 c4 c5 c6 c7 c8
    where b': "b' = [[c0,c1,c2],[c3,c4,c5],[c6,c7,c8]]" by blast
  show ?thesis using assms(3) unfolding b b'
    by (simp add: all_cells_def range3_def cell_def)
qed

lemma put_commute:
  assumes wf: "wf_board b" and p: "in_range p" and q: "in_range q" and ne: "p \<noteq> q"
  shows "put (put b p v) q w = put (put b q w) p v"
proof (rule board_ext)
  show "wf_board (put (put b p v) q w)" using wf p q by (simp add: wf_put)
  show "wf_board (put (put b q w) p v)" using wf p q by (simp add: wf_put)
  show "list_all (\<lambda>x. cell (put (put b p v) q w) x = cell (put (put b q w) p v) x) all_cells"
    unfolding list_all_iff
  proof
    fix x assume "x \<in> set all_cells"
    then have x: "in_range x" by (simp add: in_range_cases)
    show "cell (put (put b p v) q w) x = cell (put (put b q w) p v) x"
      using wf p q x ne by (simp add: cell_put wf_put)
  qed
qed

lemma first_return_uniform:
  "(\<And>t. t \<in> set ts \<Longrightarrow> t = None \<or> t = Some v) \<Longrightarrow>
     first_return ts = (if Some v \<in> set ts then v else None)"
  by (induction ts) (auto split: option.splits)

lemma first_return_none:
  "(\<And>t. t \<in> set ts \<Longrightarrow> t = None) \<Longrightarrow> first_return ts = None"
  by (induction ts) (auto split: option.splits)

lemma win_lines_three:
  "l \<in> set win_lines \<Longrightarrow> \<exists>p q r. l = [p, q, r] \<and> in_range p \<and> in_range q \<and> in_range r"
  by (auto simp: win_lines_def in_range_def)

lemma cell_main_owner:
  assumes "wf_board b" "consistent b hx ho" "set hx \<inter> set ho = {}" "in_range q"
  shows "cell (map (map cell_main) b) q =
           (if q \<in> set hx then Some ''X'' else if q \<in> set ho then Some ''Y'' else None)"
  using consistentD[OF assms(2,4)] assms(3)
  by (simp add: cell_map[OF assms(1,4)] owner_mark_def cell_main_def)

lemma line_mark_main:
  assumes wf: "wf_board b" and c: "consistent b hx ho" and dis: "set hx \<inter> set ho = {}"
    and l: "l \<in> set win_lines"
  shows "line_mark (map (map cell_main) b) l =
           (if set l \<subseteq> set hx then Some (Some ''X'')
            else if set l \<subseteq> set ho then Some (Some ''Y'') else None)"
proof -
  from win_lines_three[OF l] obtain p q r
    where l3: "l = [p, q, r]" and r: "in_range p" "in_range q" "in_range r" by blast
  show ?thesis
    unfolding l3 using dis
    by (auto simp: line_mark_def three_alike_def cell_main_owner[OF wf c dis] r)
qed

lemma winner_main_any:
  assumes inv: "game_inv s" and ls: "set ls = set win_lines"
  shows "winner_of ls (map (map cell_main) (board s)) =
           (if has_line (board s) (player_value Player_X) then Some ''X''
            else if has_line (board s) (player_value Player_O) then Some ''Y'' else None)"
proof -
  let ?b = "board s" and ?hx = "move_history_x s" and ?ho = "move_history_o s"
  let ?ts = "map (line_mark (map (map cell_main) ?b)) ls"
  have wf: "wf_board ?b" and c: "consistent ?b ?hx ?ho" and d: "distinct (?hx @ ?ho)"
    and nb: "\<not> (has_line ?b (player_value Player_X) \<and> has_line ?b (player_value Player_O))"
    using inv by (simp_all add: game_inv_def consistent_def)
  have dis: "set ?hx \<inter> set ?ho = {}" using d by auto
  note hx = has_line_x[OF c] and ho = has_line_o[OF c dis]
  note lm = line_mark_main[OF wf c dis]
  show ?thesis
  proof (cases "has_line ?b (player_value Player_X)")
    case True
    then have no: "\<not> has_line ?b (player_value Player_O)" using nb by simp
    have all: "\<And>t. t \<in> set ?ts \<Longrightarrow> t = None \<or> t = Some (Some ''X'')"
      using no unfolding ho list_ex_iff by (auto simp: lm ls)
    have ex: "Some (Some ''X'') \<in> set ?ts"
      using True unfolding hx list_ex_iff by (force simp: lm ls image_iff)
    have "first_return ?ts = (if Some (Some ''X'') \<in> set ?ts then Some ''X'' else None)"
      using all by (rule first_return_uniform)
    then show ?thesis unfolding winner_of_def using ex True by simp
  next
    case nx: False
    show ?thesis
    proof (cases "has_line ?b (player_value Player_O)")
      case True
      have all: "\<And>t. t \<in> set ?ts \<Longrightarrow> t = None \<or> t = Some (Some ''Y'')"
        using nx unfolding hx list_ex_iff by (auto simp: lm ls)
      have ex: "Some (Some ''Y'') \<in> set ?ts"
        using True nx unfolding hx ho list_ex_iff by (force simp: lm ls image_iff)
      have "first_return ?ts = (if Some (Some ''Y'') \<in> set ?ts then Some ''Y'' else None)"
        using all by (rule first_return_uniform)
      then show ?thesis unfolding winner_of_def using ex True nx by simp
    next
      case False
      have all: "\<And>t. t \<in> set ?ts \<Longrightarrow> t = None"
        using nx False unfolding hx ho list_ex_iff by (auto simp: lm ls)
      have "first_return ?ts = None" using all by (rule first_return_none)
      then show ?thesis unfolding winner_of_def using nx False by simp
    qed
  qed
qed

lemma winner_main:
  assumes inv: "game_inv s"
  shows "winner_of win_lines (map (map cell_main) (board s)) =
           (if has_line (board s) (player_value Player_X) then Some ''X''
            else if has_line (board s) (player_value Player_O) then Some ''Y'' else None)"
  using inv refl by (rule winner_main_any)

lemma full_main:
  assumes "wf_board b"
  shows "is_board_full (map (map cell_main) b) =
           list_all (\<lambda>q. cell b q \<noteq> player_value Player_EMPTY) all_cells"
proof -
  have "list_all (\<lambda>q. cell (map (map cell_main) b) q \<noteq> None) all_cells =
        list_all (\<lambda>q. cell b q \<noteq> player_value Player_EMPTY) all_cells"
    unfolding list_all_iff
    by (auto simp: cell_map[OF assms] in_range_cases[symmetric] cell_main_def)
  then show ?thesis by (simp add: is_board_full_wf wf_board_map assms)
qed

lemma make_move_main_reject:
  assumes wf: "wf_board (board s)" and na: "\<not> acceptable s row col"
  shows "make_move_main (to_main s n) row col =
           Inr (Rejected (reject_message s row col) (map (map cell_main) (board s)), to_main s n)"
proof (cases "in_range (row, col)")
  case False
  then show ?thesis
    by (simp add: make_move_main_def is_valid_position_def in_range_def reject_message_def
        get_board_state_def to_main_def)
next
  case True
  have bg: "board_get (map (map cell_main) (board s)) row col = Inr (cell_main (cell (board s) (row, col)))"
    using wf True by (simp add: board_get_wf wf_board_map cell_map)
  have st: "cell (board s) (row, col) = player_value Player_EMPTY \<Longrightarrow> status_main (state s) \<noteq> ''ongoing''"
    using na True by (cases "state s") (auto simp: acceptable_def)
  show ?thesis using True st
    by (auto simp: make_move_main_def is_valid_position_def in_range_def reject_message_def
        get_board_state_def to_main_def bg py_bind_def cell_main_def)
qed

lemma map_upd_x: "[''X'' \<mapsto> a, ''Y'' \<mapsto> b](''X'' \<mapsto> c) = [''X'' \<mapsto> c, ''Y'' \<mapsto> b]"
  by (rule ext) simp

lemma map_upd_y: "[''X'' \<mapsto> a, ''Y'' \<mapsto> b](''Y'' \<mapsto> c) = [''X'' \<mapsto> a, ''Y'' \<mapsto> c]"
  by (rule ext) simp

text \<open>Placing first and clearing the oldest piece afterwards, as the second engine does.\<close>

lemma place_then_clear:
  assumes wf: "wf_board b" and p: "in_range (row, col)" and hr: "list_all in_range h"
    and pn: "(row, col) \<notin> set h" and m: "cell_main mark = Some ms"
  shows "py_bind (board_set (map (map cell_main) b) row col (Some ms)) (\<lambda>b1.
         py_bind (if length (h @ [(row, col)]) > 3
                  then (case h @ [(row, col)] of
                          [] \<Rightarrow> Inl IndexError
                        | (old_row, old_col) # rest \<Rightarrow>
                            py_bind (board_set b1 old_row old_col None)
                              (\<lambda>b. Inr (b, rest, Some (old_row, old_col))))
                  else Inr (b1, h @ [(row, col)], None)) f)
       = f (map (map cell_main)
              (put (if length h \<ge> 3 then put b (hd h) (player_value Player_EMPTY) else b) (row, col) mark),
            (if length h \<ge> 3 then tl h else h) @ [(row, col)],
            (if length h \<ge> 3 then Some (hd h) else None))"
proof -
  have wfm: "wf_board (map (map cell_main) b)" using wf by (simp add: wf_board_map)
  have s1: "board_set (map (map cell_main) b) row col (Some ms) = Inr (map (map cell_main) (put b (row, col) mark))"
    using board_set_wf[OF wfm p] put_map[OF wf p, of cell_main mark] m by simp
  show ?thesis
  proof (cases "length h \<ge> 3")
    case False
    then show ?thesis by (simp add: s1 py_bind_def)
  next
    case True
    then obtain a rest where h: "h = a # rest" by (cases h) auto
    obtain ar ac where a: "a = (ar, ac)" by (cases a)
    have ain: "in_range (ar, ac)" using hr h a by simp
    have ne: "(row, col) \<noteq> (ar, ac)" using pn h a by auto
    have wf1: "wf_board (put b (row, col) mark)" using wf p by (rule wf_put)
    have wf1m: "wf_board (map (map cell_main) (put b (row, col) mark))"
      using wf1 by (simp add: wf_board_map)
    have e: "cell_main (player_value Player_EMPTY) = None" by (simp add: cell_main_def)
    have s2: "board_set (map (map cell_main) (put b (row, col) mark)) ar ac None
               = Inr (map (map cell_main) (put (put b (ar, ac) (player_value Player_EMPTY)) (row, col) mark))"
      using board_set_wf[OF wf1m ain, of None]
        put_map[OF wf1 ain, of cell_main "player_value Player_EMPTY"]
        put_commute[OF wf p ain ne, of mark "player_value Player_EMPTY"] e
      by simp
    show ?thesis using True h a by (simp add: s1 s2 py_bind_def)
  qed
qed

lemma after_move_fields:
  "board (after_move s row col) =
     put (if length (if current_player s = Player_X then move_history_x s else move_history_o s) \<ge> 3
          then put (board s) (hd (if current_player s = Player_X then move_history_x s else move_history_o s))
                 (player_value Player_EMPTY)
          else board s) (row, col) (player_value (current_player s))"
  "current_player (after_move s row col) = other_player (current_player s)"
  "current_player s = Player_X \<Longrightarrow> move_history_o (after_move s row col) = move_history_o s"
  "current_player s = Player_X \<Longrightarrow> move_history_x (after_move s row col) =
     (if length (move_history_x s) \<ge> 3 then tl (move_history_x s) else move_history_x s) @ [(row, col)]"
  "current_player s \<noteq> Player_X \<Longrightarrow> move_history_x (after_move s row col) = move_history_x s"
  "current_player s \<noteq> Player_X \<Longrightarrow> move_history_o (after_move s row col) =
     (if length (move_history_o s) \<ge> 3 then tl (move_history_o s) else move_history_o s) @ [(row, col)]"
  by (simp_all add: after_move_def Let_def)

lemma after_move_state:
  assumes inv: "game_inv s" and acc: "acceptable s row col"
  shows "state (after_move s row col) =
           (if has_line (board (after_move s row col)) (player_value (current_player s))
            then (if current_player s = Player_X then X_WINS else O_WINS) else IN_PROGRESS)"
proof -
  have inv': "game_inv (after_move s row col)" using inv acc by (rule game_inv_after_move)
  have st: "state s = IN_PROGRESS" using acc by (simp add: acceptable_def)
  have "state (after_move s row col) =
           (if has_line (board (after_move s row col)) (player_value (current_player s))
            then (if current_player s = Player_X then X_WINS else O_WINS)
            else if list_all (\<lambda>q. cell (board (after_move s row col)) q \<noteq> player_value Player_EMPTY) all_cells
            then DRAW else state s)"
    by (simp add: after_move_def Let_def)
  moreover have "state (after_move s row col) \<noteq> DRAW" using inv' by (simp add: game_inv_def)
  ultimately show ?thesis using st by (simp split: if_splits)
qed

lemma state_by_lines:
  "st = (if m then w else IN_PROGRESS) \<Longrightarrow> \<not> (m \<and> n) \<Longrightarrow> (st = IN_PROGRESS \<longrightarrow> \<not> m \<and> \<not> n) \<Longrightarrow> \<not> n"
  by (cases m; cases n) simp_all

lemma winner_after_move:
  assumes inv: "game_inv s" and acc: "acceptable s row col"
  shows "winner_of win_lines (map (map cell_main) (board (after_move s row col)))
           = winner_after (after_move s row col)"
proof -
  let ?s' = "after_move s row col"
  have inv': "game_inv ?s'" using inv acc by (rule game_inv_after_move)
  have cp: "current_player s = Player_X \<or> current_player s = Player_O"
    using inv by (simp add: game_inv_def)
  have nb: "\<not> (has_line (board ?s') (player_value Player_X) \<and> has_line (board ?s') (player_value Player_O))"
    and np: "state ?s' = IN_PROGRESS \<longrightarrow>
         \<not> has_line (board ?s') (player_value Player_X) \<and> \<not> has_line (board ?s') (player_value Player_O)"
    using inv' by (simp_all add: game_inv_def)
  note w = winner_main[OF inv']
  from cp show ?thesis
  proof
    assume m: "current_player s = Player_X"
    have st: "state ?s' = (if has_line (board ?s') (player_value Player_X) then X_WINS else IN_PROGRESS)"
      by (simp only: after_move_state[OF inv acc] m simp_thms if_True)
    have no: "\<not> has_line (board ?s') (player_value Player_O)"
      using st nb np by (rule state_by_lines)
    show ?thesis unfolding w winner_after_def st using no by simp
  next
    assume m: "current_player s = Player_O"
    have st: "state ?s' = (if has_line (board ?s') (player_value Player_O) then O_WINS else IN_PROGRESS)"
      by (simp only: after_move_state[OF inv acc] m simp_thms if_True if_False Player.distinct)
    have nb': "\<not> (has_line (board ?s') (player_value Player_O) \<and> has_line (board ?s') (player_value Player_X))"
      using nb by blast
    have np': "state ?s' = IN_PROGRESS \<longrightarrow>
         \<not> has_line (board ?s') (player_value Player_O) \<and> \<not> has_line (board ?s') (player_value Player_X)"
      using np by blast
    have no: "\<not> has_line (board ?s') (player_value Player_X)"
      using st nb' np' by (rule state_by_lines)
    show ?thesis unfolding w winner_after_def st using no by simp
  qed
qed

lemma make_move_main_steps:
  assumes "is_valid_position row col" "board_get (board_main g) row col = Inr None"
    "game_status g = ''ongoing''"
    "dict_get (player_moves g) (current_player_main g) = Inr h"
  shows "make_move_main g row col =
     py_bind (board_set (board_main g) row col (Some (current_player_main g))) (\<lambda>b1.
     py_bind (if length (h @ [(row, col)]) > 3
              then (case h @ [(row, col)] of
                      [] \<Rightarrow> Inl IndexError
                    | (old_row, old_col) # rest \<Rightarrow>
                        py_bind (board_set b1 old_row old_col None)
                          (\<lambda>b. Inr (b, rest, Some (old_row, old_col))))
              else Inr (b1, h @ [(row, col)], None))
       (finish_main g))"
  unfolding make_move_main_def finish_main_def Let_def
  using assms by (simp add: py_bind_def)

lemma py_str_cases: "py_str (Some ''X'') @ ''_wins'' = ''X_wins''" "py_str (Some ''Y'') @ ''_wins'' = ''Y_wins''"
  by (simp_all add: py_str_def)

lemma finish_main_eval:
  assumes cw: "check_winner b2 = Inr w" and nf: "\<not> is_board_full b2"
    and w: "w = None \<or> w = Some ''X'' \<or> w = Some ''Y''"
  shows "finish_main g (b2, moves2, removed) =
     Inr (Accepted ''Move successful'' b2 removed
            (if current_player_main g = ''X'' then ''Y'' else ''X'')
            (case w of None \<Rightarrow> game_status g | Some v \<Rightarrow> v @ ''_wins'') w,
          \<lparr>board_main = b2,
           player_moves = (player_moves g)(current_player_main g \<mapsto> moves2),
           current_player_main = (if current_player_main g = ''X'' then ''Y'' else ''X''),
           game_status = (case w of None \<Rightarrow> game_status g | Some v \<Rightarrow> v @ ''_wins''),
           total_moves = total_moves g + 1\<rparr>)"
  using w nf
  by (auto simp: finish_main_def cw py_bind_def Let_def truthy_def py_str_def get_board_state_def)

lemma make_move_main_accept:
  assumes inv: "game_inv s" and acc: "acceptable s row col"
  shows "make_move_main (to_main s n) row col =
           Inr (accepted_result s (after_move s row col), to_main (after_move s row col) (n + 1))"
proof -
  let ?s' = "after_move s row col"
  let ?g = "to_main s n"
  let ?h = "if current_player s = Player_X then move_history_x s else move_history_o s"
  have inv': "game_inv ?s'" using inv acc by (rule game_inv_after_move)
  have wf: "wf_board (board s)" and c: "consistent (board s) (move_history_x s) (move_history_o s)"
    and rx: "list_all in_range (move_history_x s)" and ro: "list_all in_range (move_history_o s)"
    and cp: "current_player s = Player_X \<or> current_player s = Player_O"
    using inv by (simp_all add: game_inv_def)
  have p: "in_range (row, col)" and e: "cell (board s) (row, col) = player_value Player_EMPTY"
    and st: "state s = IN_PROGRESS"
    using acc by (simp_all add: acceptable_def)
  have hr: "list_all in_range ?h" using rx ro by simp
  have pn: "(row, col) \<notin> set ?h"
    using consistentD[OF c p] e by (auto simp: owner_mark_def split: if_splits)
  have m: "cell_main (player_value (current_player s)) = Some (player_main (current_player s))"
    using cp by (auto simp: cell_main_def)
  have vp: "is_valid_position row col" using p by (simp add: is_valid_position_def in_range_def)
  have bg: "board_get (board_main ?g) row col = Inr None"
    using wf p e by (simp add: to_main_def board_get_wf wf_board_map cell_map cell_main_def)
  have gs: "game_status ?g = ''ongoing''" using st by (simp add: to_main_def)
  have dg: "dict_get (player_moves ?g) (current_player_main ?g) = Inr ?h"
    using cp by (auto simp: to_main_def dict_get_def)
  have bm: "board_main ?g = map (map cell_main) (board s)" and cm: "current_player_main ?g = player_main (current_player s)"
    by (simp_all add: to_main_def)
  have wf': "wf_board (map (map cell_main) (board ?s'))"
    using inv' by (simp add: game_inv_def wf_board_map)
  have cw: "check_winner (map (map cell_main) (board ?s')) = Inr (winner_after ?s')"
    using check_winner_wf[OF wf'] winner_after_move[OF inv acc] by simp
  have nf: "\<not> is_board_full (map (map cell_main) (board ?s'))"
  proof -
    have "wf_board (board ?s')" "consistent (board ?s') (move_history_x ?s') (move_history_o ?s')"
      "length (move_history_x ?s') \<le> 3" "length (move_history_o ?s') \<le> 3"
      using inv' by (simp_all add: game_inv_def)
    then show ?thesis using never_full full_main by blast
  qed
  have ww: "winner_after ?s' = None \<or> winner_after ?s' = Some ''X'' \<or> winner_after ?s' = Some ''Y''"
    by (simp add: winner_after_def)
  have step: "make_move_main ?g row col =
      finish_main ?g (map (map cell_main) (board ?s'),
                      (if length ?h \<ge> 3 then tl ?h else ?h) @ [(row, col)],
                      (if length ?h \<ge> 3 then Some (hd ?h) else None))"
    unfolding make_move_main_steps[OF vp bg gs dg] bm cm
      place_then_clear[OF wf p hr pn m] after_move_fields(1) ..
  have sd: "state ?s' \<noteq> DRAW" using inv' by (simp add: game_inv_def)
  have status: "(case winner_after ?s' of None \<Rightarrow> game_status ?g | Some v \<Rightarrow> v @ ''_wins'')
                  = status_main (state ?s')"
    using sd gs after_move_state[OF inv acc]
    by (cases "state ?s'") (auto simp: winner_after_def split: if_splits)
  from cp show ?thesis
  proof
    assume x: "current_player s = Player_X"
    show ?thesis
      unfolding step finish_main_eval[OF cw nf ww] status
      using x
      by (simp add: accepted_result_def to_main_def after_move_fields removed_by_def
          other_player_def map_upd_x)
  next
    assume o: "current_player s = Player_O"
    show ?thesis
      unfolding step finish_main_eval[OF cw nf ww] status
      using o
      by (simp add: accepted_result_def to_main_def after_move_fields removed_by_def
          other_player_def map_upd_y)
  qed
qed

lemma make_move_main_cases:
  assumes "game_inv s"
  shows "make_move_main (to_main s n) row col =
           (if acceptable s row col
            then Inr (accepted_result s (after_move s row col), to_main (after_move s row col) (n + 1))
            else Inr (Rejected (reject_message s row col) (map (map cell_main) (board s)), to_main s n))"
proof (cases "acceptable s row col")
  case True
  then show ?thesis using make_move_main_accept[OF assms] by simp
next
  case False
  have "wf_board (board s)" using assms by (simp add: game_inv_def)
  then show ?thesis using False make_move_main_reject by simp
qed

lemma new_game_main_to_main: "new_game_main = to_main new_game 0"
  by (simp add: new_game_main_def to_main_def new_game_def empty_board_def empty_board_main_def
      range3_def cell_main_def)

lemma reset_game_to_main: "snd (reset_game g) = to_main new_game 0"
  by (simp add: reset_game_def Let_def to_main_def new_game_def empty_board_def empty_board_main_def
      range3_def cell_main_def)

lemma reset_new_game: "reset s = new_game"
  by (simp add: reset_def new_game_def)

lemma reachable_main_to_main: "reachable_main g \<Longrightarrow> \<exists>s n. reachable s \<and> g = to_main s n"
proof (induction rule: reachable_main.induct)
  case reach_main_new
  show ?case using reach_new new_game_main_to_main by blast
next
  case (reach_main_move g row col res g')
  then obtain s n where s: "reachable s" and g: "g = to_main s n" by blast
  have inv: "game_inv s" using s by (rule reachable_inv)
  show ?case
  proof (cases "acceptable s row col")
    case True
    have mv: "make_move s row col = Inr (True, after_move s row col)"
      using make_move_cases[OF inv] True by simp
    have "g' = to_main (after_move s row col) (n + 1)"
      using reach_main_move.hyps(2) True unfolding g make_move_main_cases[OF inv] by simp
    moreover have "reachable (after_move s row col)" using s mv by (rule reach_move)
    ultimately show ?thesis by blast
  next
    case False
    have "g' = to_main s n"
      using reach_main_move.hyps(2) False unfolding g make_move_main_cases[OF inv] by simp
    then show ?thesis using s by blast
  qed
next
  case (reach_main_reset g)
  show ?case using reach_new reset_game_to_main by blast
qed

section \<open>Marks, runs and sample games\<close>

lemma marked_wf: "wf_board b \<Longrightarrow> set (marked b m) = {q. in_range q \<and> cell b q = m}"
  by (auto simp: marked_def in_range_cases[symmetric] board_get_wf)

lemma in_range_set: "list_all in_range h \<Longrightarrow> q \<in> set h \<Longrightarrow> in_range q"
  by (simp add: list_all_iff)

lemma marked_histories:
  assumes inv: "game_inv s"
  shows "set (marked (board s) (player_value Player_X)) = set (move_history_x s)"
    and "set (marked (board s) (player_value Player_O)) = set (move_history_o s)"
    and "set (marked (map (map cell_main) (board s)) (Some ''X'')) = set (move_history_x s)"
    and "set (marked (map (map cell_main) (board s)) (Some ''Y'')) = set (move_history_o s)"
proof -
  let ?b = "board s" and ?hx = "move_history_x s" and ?ho = "move_history_o s"
  have wf: "wf_board ?b" and c: "consistent ?b ?hx ?ho" and d: "distinct (?hx @ ?ho)"
    and rx: "list_all in_range ?hx" and ro: "list_all in_range ?ho"
    using inv by (simp_all add: game_inv_def)
  have dis: "set ?hx \<inter> set ?ho = {}" using d by auto
  have wfm: "wf_board (map (map cell_main) ?b)" using wf by (simp add: wf_board_map)
  note cm = cell_main_owner[OF wf c dis]
  show "set (marked ?b (player_value Player_X)) = set ?hx"
    unfolding marked_wf[OF wf] using consistentD[OF c] in_range_set[OF rx]
    by (auto simp: owner_mark_def split: if_splits)
  show "set (marked ?b (player_value Player_O)) = set ?ho"
    unfolding marked_wf[OF wf] using consistentD[OF c] in_range_set[OF ro] dis
    by (auto simp: owner_mark_def split: if_splits)
  show "set (marked (map (map cell_main) ?b) (Some ''X'')) = set ?hx"
    unfolding marked_wf[OF wfm] using in_range_set[OF rx]
    by (auto simp: cm split: if_splits)
  show "set (marked (map (map cell_main) ?b) (Some ''Y'')) = set ?ho"
    unfolding marked_wf[OF wfm] using in_range_set[OF ro] dis
    by (auto simp: cm split: if_splits)
qed

lemma play_reachable: "reachable s \<Longrightarrow> play s ms = Inr (oks, s') \<Longrightarrow> reachable s'"
proof (induction ms arbitrary: s oks)
  case Nil
  then show ?case by simp
next
  case (Cons m ms)
  obtain row col where m: "m = (row, col)" by (cases m)
  from Cons.prems(2) obtain ok t oks' where mv: "make_move s row col = Inr (ok, t)"
    and rest: "play t ms = Inr (oks', s')"
    unfolding m by (auto simp: py_bind_def split: sum.splits prod.splits)
  have "reachable t" using Cons.prems(1) mv by (rule reach_move)
  then show ?case using rest by (rule Cons.IH)
qed

lemma play_main_reachable:
  "reachable_main g \<Longrightarrow> play_main g ms = Inr (oks, g') \<Longrightarrow> reachable_main g'"
proof (induction ms arbitrary: g oks)
  case Nil
  then show ?case by simp
next
  case (Cons m ms)
  obtain row col where m: "m = (row, col)" by (cases m)
  from Cons.prems(2) obtain res t oks' where mv: "make_move_main g row col = Inr (res, t)"
    and rest: "play_main t ms = Inr (oks', g')"
    unfolding m by (auto simp: py_bind_def split: sum.splits prod.splits)
  have "reachable_main t" using Cons.prems(1) mv by (rule reach_main_move)
  then show ?case using rest by (rule Cons.IH)
qed

lemma play_sim:
  "game_inv s \<Longrightarrow>
     \<exists>oks s'. play s ms = Inr (oks, s') \<and> game_inv s' \<and>
       play_main (to_main s n) ms = Inr (oks, to_main s' (n + int (length (filter id oks))))"
proof (induction ms arbitrary: s n)
  case Nil
  then show ?case by simp
next
  case (Cons m ms)
  obtain row col where m: "m = (row, col)" by (cases m)
  show ?case
  proof (cases "acceptable s row col")
    case True
    have inv': "game_inv (after_move s row col)" using Cons.prems True by (rule game_inv_after_move)
    from Cons.IH[OF inv', of "n + 1"] obtain oks s'
      where a: "play (after_move s row col) ms = Inr (oks, s')" and b: "game_inv s'"
        and c: "play_main (to_main (after_move s row col) (n + 1)) ms
                  = Inr (oks, to_main s' (n + 1 + int (length (filter id oks))))"
      by blast
    have "play s (m # ms) = Inr (True # oks, s')"
      unfolding m using a True by (simp add: make_move_cases[OF Cons.prems] py_bind_def)
    moreover have "play_main (to_main s n) (m # ms)
        = Inr (True # oks, to_main s' (n + int (length (filter id (True # oks)))))"
      unfolding m using c True
      by (simp add: make_move_main_cases[OF Cons.prems] py_bind_def accepted_result_def add.assoc)
    ultimately show ?thesis using b by blast
  next
    case False
    from Cons.IH[OF Cons.prems, of n] obtain oks s'
      where a: "play s ms = Inr (oks, s')" and b: "game_inv s'"
        and c: "play_main (to_main s n) ms = Inr (oks, to_main s' (n + int (length (filter id oks))))"
      by blast
    have "play s (m # ms) = Inr (False # oks, s')"
      unfolding m using a False by (simp add: make_move_cases[OF Cons.prems] py_bind_def)
    moreover have "play_main (to_main s n) (m # ms)
        = Inr (False # oks, to_main s' (n + int (length (filter id (False # oks)))))"
      unfolding m using c False
      by (simp add: make_move_main_cases[OF Cons.prems] py_bind_def)
    ultimately show ?thesis using b by blast
  qed
qed

lemma play_main_of_play:
  assumes "play new_game ms = Inr (oks, s)"
  shows "play_main new_game_main ms = Inr (oks, to_main s (int (length (filter id oks))))"
  using play_sim[OF game_inv_new, of ms 0] assms by (auto simp: new_game_main_to_main)

lemma sample_play: "play new_game sample_moves = Inr ([True, True, True, True, True, True], sample_game)"
  unfolding sample_moves_def sample_game_def by code_simp

lemma won_play: "play new_game won_moves = Inr ([True, True, True, True, True], won_game)"
  unfolding won_moves_def won_game_def by code_simp

lemma sample_reachable: "reachable sample_game"
  using reach_new sample_play by (rule play_reachable)

lemma won_reachable: "reachable won_game"
  using reach_new won_play by (rule play_reachable)

lemma sample_main_reachable: "reachable_main (to_main sample_game 6)"
  using play_main_reachable[OF reach_main_new play_main_of_play[OF sample_play]] by simp

lemma won_main_reachable: "reachable_main (to_main won_game 5)"
  using play_main_reachable[OF reach_main_new play_main_of_play[OF won_play]] by simp

lemma concluded_rejects: "state s \<noteq> IN_PROGRESS \<Longrightarrow> make_move s row col = Inr (False, s)"
  by (simp add: make_move_def is_valid_move_def py_bind_def)

lemma concluded_play: "state s \<noteq> IN_PROGRESS \<Longrightarrow> play s ms = Inr (replicate (length ms) False, s)"
  by (induction ms) (auto simp: concluded_rejects py_bind_def)

lemma concluded_main_rejects:
  assumes "game_inv t" "status_main (state t) \<noteq> ''ongoing''"
  shows "make_move_main (to_main t n) row col =
           Inr (Rejected (reject_message t row col) (map (map cell_main) (board t)), to_main t n)"
proof -
  have "\<not> acceptable t row col" using assms(2) by (auto simp: acceptable_def)
  then show ?thesis by (simp add: make_move_main_cases[OF assms(1)])
qed

lemma concluded_main_play:
  assumes "game_inv t" "status_main (state t) \<noteq> ''ongoing''"
  shows "play_main (to_main t n) ms = Inr (replicate (length ms) False, to_main t n)"
  by (induction ms) (auto simp: concluded_main_rejects[OF assms] py_bind_def)

lemma occupied_wf:
  assumes "wf_board b"
  shows "occupied b e = length (filter (\<lambda>q. cell b q \<noteq> e) all_cells)"
proof -
  from wf_board_shape[OF assms] obtain a0 a1 a2 a3 a4 a5 a6 a7 a8
    where b: "b = [[a0,a1,a2],[a3,a4,a5],[a6,a7,a8]]" by blast
  show ?thesis unfolding b
    by (simp add: occupied_def all_cells_def range3_def cell_def)
qed

lemma occupied_card:
  assumes "wf_board b"
  shows "occupied b e = card {q \<in> set all_cells. cell b q \<noteq> e}"
proof -
  have "{q \<in> set all_cells. cell b q \<noteq> e} = {q. cell b q \<noteq> e} \<inter> set all_cells" by auto
  then show ?thesis
    unfolding occupied_wf[OF assms] using distinct_length_filter[OF distinct_all_cells(1)]
    by simp
qed

lemma occupied_histories:
  assumes inv: "game_inv s"
  shows "occupied (board s) (player_value Player_EMPTY) = length (move_history_x s) + length (move_history_o s)"
    and "occupied (map (map cell_main) (board s)) None = length (move_history_x s) + length (move_history_o s)"
proof -
  let ?b = "board s" and ?hx = "move_history_x s" and ?ho = "move_history_o s"
  have wf: "wf_board ?b" and c: "consistent ?b ?hx ?ho" and d: "distinct (?hx @ ?ho)"
    and rx: "list_all in_range ?hx" and ro: "list_all in_range ?ho"
    using inv by (simp_all add: game_inv_def)
  have dis: "set ?hx \<inter> set ?ho = {}" using d by auto
  have wfm: "wf_board (map (map cell_main) ?b)" using wf by (simp add: wf_board_map)
  have a: "{q \<in> set all_cells. cell ?b q \<noteq> player_value Player_EMPTY} = set (?hx @ ?ho)"
    using consistentD[OF c] in_range_set[OF rx] in_range_set[OF ro]
    by (auto simp: owner_mark_def in_range_cases[symmetric] split: if_splits)
  have b: "{q \<in> set all_cells. cell (map (map cell_main) ?b) q \<noteq> None} = set (?hx @ ?ho)"
    using in_range_set[OF rx] in_range_set[OF ro]
    by (auto simp: cell_main_owner[OF wf c dis] in_range_cases[symmetric] split: if_splits)
  have k: "card (set (?hx @ ?ho)) = length ?hx + length ?ho"
    using distinct_card[OF d] by simp
  show "occupied ?b (player_value Player_EMPTY) = length ?hx + length ?ho"
    unfolding occupied_card[OF wf] a k ..
  show "occupied (map (map cell_main) ?b) None = length ?hx + length ?ho"
    unfolding occupied_card[OF wfm] b k ..
qed

lemma pre_win_play: "play new_game [(0, 0), (1, 0), (0, 1), (1, 1)] = Inr ([True, True, True, True], pre_win_game)"
  unfolding pre_win_game_def by code_simp

lemma pre_win_reachable: "reachable pre_win_game"
  using reach_new pre_win_play by (rule play_reachable)

lemma pre_win_main_reachable: "reachable_main (to_main pre_win_game 4)"
  using play_main_reachable[OF reach_main_new play_main_of_play[OF pre_win_play]] by simp

lemma pre_win_move: "make_move pre_win_game 0 2 = Inr (True, won_game)"
  unfolding pre_win_game_def won_game_def by code_simp

lemma to_main_fields:
  "board_main (to_main s n) = map (map cell_main) (board s)"
  "player_moves (to_main s n) = [''X'' \<mapsto> move_history_x s, ''Y'' \<mapsto> move_history_o s]"
  "current_player_main (to_main s n) = player_main (current_player s)"
  "game_status (to_main s n) = status_main (state s)"
  "total_moves (to_main s n) = n"
  by (simp_all add: to_main_def)




lemma pre_win_main_move:
  "make_move_main (to_main pre_win_game 4) 0 2 =
     Inr (accepted_result pre_win_game won_game, to_main won_game 5)"
proof -
  have inv: "game_inv pre_win_game" using pre_win_reachable by (rule reachable_inv)
  have acc: "acceptable pre_win_game 0 2"
    using pre_win_move unfolding make_move_cases[OF inv] by (simp split: if_splits)
  have "after_move pre_win_game 0 2 = won_game"
    using pre_win_move acc unfolding make_move_cases[OF inv] by simp
  then show ?thesis using acc by (simp add: make_move_main_cases[OF inv])
qed



lemma board_changes_put:
  assumes wf: "wf_board b" and p: "in_range p"
    and v: "\<And>a. v = Some a \<Longrightarrow> in_range a"
  shows "board_changes b (put (case v of Some a \<Rightarrow> put b a vacant | None \<Rightarrow> b) p mark) v p mark vacant"
proof -
  have wf1: "wf_board (case v of Some a \<Rightarrow> put b a vacant | None \<Rightarrow> b)"
    using wf v by (auto split: option.splits intro: wf_put)
  have wf2: "wf_board (put (case v of Some a \<Rightarrow> put b a vacant | None \<Rightarrow> b) p mark)"
    using wf1 p by (rule wf_put)
  show ?thesis
    unfolding board_changes_def list_all_iff
  proof
    fix q assume "q \<in> set all_cells"
    then have q: "in_range q" by (simp add: in_range_cases)
    have g2: "board_get (put (case v of Some a \<Rightarrow> put b a vacant | None \<Rightarrow> b) p mark) (fst q) (snd q)
             = Inr (cell (put (case v of Some a \<Rightarrow> put b a vacant | None \<Rightarrow> b) p mark) q)"
      using board_get_wf[OF wf2, of "fst q" "snd q"] q by simp
    have g0: "board_get b (fst q) (snd q) = Inr (cell b q)"
      using board_get_wf[OF wf, of "fst q" "snd q"] q by simp
    show "board_get (put (case v of Some a \<Rightarrow> put b a vacant | None \<Rightarrow> b) p mark) (fst q) (snd q) =
           (if q = p then Inr mark else if Some q = v then Inr vacant else board_get b (fst q) (snd q))"
      unfolding g2 g0 using wf wf1 p q v
      by (cases v) (auto simp: cell_put)
  qed
qed

lemma board_after_move:
  assumes inv: "game_inv s" and acc: "acceptable s row col"
    and h: "h = (if current_player s = Player_X then move_history_x s else move_history_o s)"
    and v: "v = (if length h = 3 then Some (hd h) else None)"
  shows "board (after_move s row col) =
           put (case v of Some a \<Rightarrow> put (board s) a (player_value Player_EMPTY) | None \<Rightarrow> board s)
             (row, col) (player_value (current_player s))"
    and "map (map cell_main) (board (after_move s row col)) =
           put (case v of Some a \<Rightarrow> put (map (map cell_main) (board s)) a None
                | None \<Rightarrow> map (map cell_main) (board s))
             (row, col) (Some (player_main (current_player s)))"
    and "\<And>a. v = Some a \<Longrightarrow> in_range a"
    and "length h \<le> 3"
proof -
  have wf: "wf_board (board s)"
    and rx: "list_all in_range (move_history_x s)" and ro: "list_all in_range (move_history_o s)"
    and lx: "length (move_history_x s) \<le> 3" and lo: "length (move_history_o s) \<le> 3"
    and cp: "current_player s = Player_X \<or> current_player s = Player_O"
    using inv by (simp_all add: game_inv_def)
  have p: "in_range (row, col)" using acc by (simp add: acceptable_def)
  show l3: "length h \<le> 3" using lx lo h by simp
  have hr: "list_all in_range h" using rx ro h by simp
  show va: "\<And>a. v = Some a \<Longrightarrow> in_range a"
    using hr v by (cases h) (auto split: if_splits)
  have ge: "(length h \<ge> 3) = (length h = 3)" using l3 by auto
  show b1: "board (after_move s row col) =
           put (case v of Some a \<Rightarrow> put (board s) a (player_value Player_EMPTY) | None \<Rightarrow> board s)
             (row, col) (player_value (current_player s))"
    unfolding after_move_fields(1) h[symmetric] ge v by simp
  have m: "cell_main (player_value (current_player s)) = Some (player_main (current_player s))"
    using cp by (auto simp: cell_main_def)
  have e: "cell_main (player_value Player_EMPTY) = None" by (simp add: cell_main_def)
  show "map (map cell_main) (board (after_move s row col)) =
           put (case v of Some a \<Rightarrow> put (map (map cell_main) (board s)) a None
                | None \<Rightarrow> map (map cell_main) (board s))
             (row, col) (Some (player_main (current_player s)))"
  proof (cases v)
    case None
    then show ?thesis unfolding b1 using put_map[OF wf p, of cell_main "player_value (current_player s)"] m
      by simp
  next
    case (Some a)
    have a: "in_range a" using va Some by simp
    have wf1: "wf_board (put (board s) a (player_value Player_EMPTY))" using wf a by (rule wf_put)
    show ?thesis unfolding b1 Some
      using put_map[OF wf1 p, of cell_main "player_value (current_player s)"]
        put_map[OF wf a, of cell_main "player_value Player_EMPTY"] m e
      by simp
  qed
qed

lemma sample_move: "make_move sample_game 2 2 = Inr (True, vanish_game)"
  unfolding sample_game_def vanish_game_def by code_simp

lemma main_move_of_move:
  assumes r: "reachable s" and mv: "make_move s row col = Inr (True, s')"
  shows "make_move_main (to_main s n) row col = Inr (accepted_result s s', to_main s' (n + 1))"
proof -
  have inv: "game_inv s" using r by (rule reachable_inv)
  have acc: "acceptable s row col"
    using mv unfolding make_move_cases[OF inv] by (simp split: if_splits)
  have "after_move s row col = s'"
    using mv acc unfolding make_move_cases[OF inv] by simp
  then show ?thesis using acc by (simp add: make_move_main_cases[OF inv])
qed

lemma sample_facts:
  "state sample_game = IN_PROGRESS"
  "board_get (board sample_game) 2 2 = Inr '' ''"
  "get_move_history sample_game (current_player sample_game) = [(0, 0), (0, 1), (1, 2)]"
  "get_move_history vanish_game (current_player sample_game) = [(0, 1), (1, 2), (2, 2)]"
  "get_move_history vanish_game (other_player (current_player sample_game)) = [(1, 1), (0, 2), (2, 1)]"
  "board_get (board vanish_game) 0 0 = Inr '' ''"
  "board_get (board vanish_game) 2 2 = Inr ''X''"
  "board_changes (board sample_game) (board vanish_game) (Some (0, 0)) (2, 2) ''X'' '' ''"
  unfolding sample_game_def vanish_game_def by code_simp+

lemma pre_win_facts:
  "state pre_win_game = IN_PROGRESS"
  "board_get (board pre_win_game) 0 2 = Inr '' ''"
  "get_move_history pre_win_game (current_player pre_win_game) = [(0, 0), (0, 1)]"
  "get_move_history won_game (current_player pre_win_game) = [(0, 0), (0, 1), (0, 2)]"
  "board_changes (board pre_win_game) (board won_game) None (0, 2) ''X'' '' ''"
  unfolding pre_win_game_def won_game_def by code_simp+

lemma non_mover_no_line:
  assumes inv: "game_inv s" and acc: "acceptable s row col"
  shows "\<not> has_line (board (after_move s row col)) (player_value (other_player (current_player s)))"
proof -
  let ?s' = "after_move s row col"
  have inv': "game_inv ?s'" using inv acc by (rule game_inv_after_move)
  have cp: "current_player s = Player_X \<or> current_player s = Player_O"
    using inv by (simp add: game_inv_def)
  have nb: "\<not> (has_line (board ?s') (player_value Player_X) \<and> has_line (board ?s') (player_value Player_O))"
    and np: "state ?s' = IN_PROGRESS \<longrightarrow>
         \<not> has_line (board ?s') (player_value Player_X) \<and> \<not> has_line (board ?s') (player_value Player_O)"
    using inv' by (simp_all add: game_inv_def)
  from cp show ?thesis
  proof
    assume m: "current_player s = Player_X"
    have st: "state ?s' = (if has_line (board ?s') (player_value Player_X) then X_WINS else IN_PROGRESS)"
      by (simp only: after_move_state[OF inv acc] m simp_thms if_True)
    have "\<not> has_line (board ?s') (player_value Player_O)"
      using st nb np by (rule state_by_lines)
    then show ?thesis unfolding m by (simp add: other_player_def)
  next
    assume m: "current_player s = Player_O"
    have st: "state ?s' = (if has_line (board ?s') (player_value Player_O) then O_WINS else IN_PROGRESS)"
      by (simp only: after_move_state[OF inv acc] m simp_thms if_True if_False Player.distinct)
    have nb': "\<not> (has_line (board ?s') (player_value Player_O) \<and> has_line (board ?s') (player_value Player_X))"
      using nb by blast
    have np': "state ?s' = IN_PROGRESS \<longrightarrow>
         \<not> has_line (board ?s') (player_value Player_O) \<and> \<not> has_line (board ?s') (player_value Player_X)"
      using np by blast
    have "\<not> has_line (board ?s') (player_value Player_X)"
      using st nb' np' by (rule state_by_lines)
    then show ?thesis unfolding m by (simp add: other_player_def)
  qed
qed

lemma won_checks:
  "check_win (board won_game) Player_X = Inr True"
  "check_win (board won_game) Player_O = Inr False"
  "check_win (board won_game) Player_X =
     Inr (list_ex (\<lambda>l. list_all (\<lambda>q. cell (board won_game) q = player_value Player_X) l) (rev win_lines))"
  "check_winner (map (map cell_main) (board won_game)) = Inr (Some ''X'')"
  "winner_of (rev win_lines) (map (map cell_main) (board won_game)) = Some ''X''"
  unfolding won_game_def by code_simp+

lemma won_main_explicit:
  "to_main won_game 5 =
     \<lparr>board_main = [[Some ''X'', Some ''X'', Some ''X''], [Some ''Y'', Some ''Y'', None], [None, None, None]],
      player_moves = [''X'' \<mapsto> [(0, 0), (0, 1), (0, 2)], ''Y'' \<mapsto> [(1, 0), (1, 1)]],
      current_player_main = ''Y'', game_status = ''X_wins'', total_moves = 5\<rparr>"
  by (simp add: to_main_def won_game_def cell_main_def)

lemma won_main_rejections:
  "make_move_main (to_main won_game 5) 3 0 =
     Inr (Rejected ''Invalid position. Row and column must be between 0-2.''
            (board_main (to_main won_game 5)), to_main won_game 5)"
  "make_move_main (to_main won_game 5) 0 0 =
     Inr (Rejected ''Position already occupied.'' (board_main (to_main won_game 5)), to_main won_game 5)"
  "make_move_main (to_main won_game 5) 2 2 =
     Inr (Rejected ''Game is over. Status: X_wins'' (board_main (to_main won_game 5)), to_main won_game 5)"
proof -
  have inv: "game_inv won_game" using won_reachable by (rule reachable_inv)
  have na: "\<not> acceptable won_game r c" for r c by (simp add: acceptable_def won_game_def)
  show "make_move_main (to_main won_game 5) 3 0 =
     Inr (Rejected ''Invalid position. Row and column must be between 0-2.''
            (board_main (to_main won_game 5)), to_main won_game 5)"
    unfolding make_move_main_cases[OF inv] using na
    by (simp add: reject_message_def in_range_def to_main_fields)
  have c00: "cell (board won_game) (0, 0) = ''X''" "cell (board won_game) (2, 2) = '' ''"
    by (simp_all add: won_game_def cell_def)
  show "make_move_main (to_main won_game 5) 0 0 =
     Inr (Rejected ''Position already occupied.'' (board_main (to_main won_game 5)), to_main won_game 5)"
    unfolding make_move_main_cases[OF inv] using na
    by (simp add: reject_message_def in_range_def to_main_fields c00)
  show "make_move_main (to_main won_game 5) 2 2 =
     Inr (Rejected ''Game is over. Status: X_wins'' (board_main (to_main won_game 5)), to_main won_game 5)"
    unfolding make_move_main_cases[OF inv] using na
    by (simp add: reject_message_def in_range_def to_main_fields c00) (simp add: won_game_def)
qed

lemma won_gets:
  "board_get (board pre_win_game) 0 0 = Inr ''X''"
  "board_get (board_main (to_main pre_win_game 4)) 0 0 = Inr (Some ''X'')"
  "board_get (board_main (to_main won_game 5)) 2 2 = Inr None"
  unfolding pre_win_game_def won_game_def to_main_fields by code_simp+

section \<open>The win and draw tests on any board of three by three\<close>

lemma check_draw_rows:
  assumes "wf_board b"
  shows "check_draw b = Inr (list_all (\<lambda>line. list_all (\<lambda>v. v \<noteq> player_value Player_EMPTY) line) b)"
proof -
  from wf_board_shape[OF assms] obtain a0 a1 a2 a3 a4 a5 a6 a7 a8
    where b: "b = [[a0,a1,a2],[a3,a4,a5],[a6,a7,a8]]" by blast
  show ?thesis
    unfolding b
    by (simp add: check_draw_def range3_def board_get_def py_getitem_def
        list_slot_def py_bind_def)
qed

lemma make_move_general:
  assumes wf: "wf_board (board s)"
    and hr: "list_all in_range (if current_player s = Player_X then move_history_x s else move_history_o s)"
    and acc: "acceptable s row col"
  shows "\<exists>s' won full. make_move s row col = Inr (True, s') \<and>
           check_win (board s') (current_player s) = Inr won \<and>
           check_draw (board s') = Inr full \<and>
           state s' = (if won then (if current_player s = Player_X then X_WINS else O_WINS)
                       else if full then DRAW else state s)"
proof -
  let ?h = "if current_player s = Player_X then move_history_x s else move_history_o s"
  let ?s' = "after_move s row col"
  have mv: "make_move s row col = Inr (True, ?s')"
    using wf hr acc refl by (rule make_move_accept_hist)
  have p: "in_range (row, col)" using acc by (simp add: acceptable_def)
  have hdr: "length ?h \<ge> 3 \<Longrightarrow> in_range (hd ?h)" using hr by (cases ?h) auto
  have wf1: "wf_board (if length ?h \<ge> 3 then put (board s) (hd ?h) (player_value Player_EMPTY) else board s)"
    using wf hdr by (simp add: wf_put)
  have wf': "wf_board (board ?s')"
    unfolding after_move_fields(1) using wf1 p by (rule wf_put)
  have st: "state ?s' =
           (if has_line (board ?s') (player_value (current_player s))
            then (if current_player s = Player_X then X_WINS else O_WINS)
            else if list_all (\<lambda>q. cell (board ?s') q \<noteq> player_value Player_EMPTY) all_cells
            then DRAW else state s)"
    by (simp add: after_move_def Let_def)
  show ?thesis
    using mv check_win_wf[OF wf', of "current_player s"] check_draw_wf[OF wf'] st by blast
qed

lemma make_move_main_general:
  assumes wf: "wf_board (board_main g)" and vp: "is_valid_position row col"
    and bg: "board_get (board_main g) row col = Inr None" and st: "game_status g = ''ongoing''"
    and dg: "player_moves g (current_player_main g) = Some k" and kr: "list_all in_range k"
  shows "\<exists>res g' w. make_move_main g row col = Inr (res, g') \<and> success res \<and>
           check_winner (board_main g') = Inr w \<and>
           game_status g' = (if truthy w then py_str w @ ''_wins''
                             else if is_board_full (board_main g') then ''draw''
                             else game_status g)"
proof -
  have p: "in_range (row, col)" using vp by (simp add: in_range_def is_valid_position_def)
  have dg': "dict_get (player_moves g) (current_player_main g) = Inr k"
    using dg by (simp add: dict_get_def)
  let ?b1 = "put (board_main g) (row, col) (Some (current_player_main g))"
  have s1: "board_set (board_main g) row col (Some (current_player_main g)) = Inr ?b1"
    using wf p by (rule board_set_wf)
  have wf1: "wf_board ?b1" using wf p by (rule wf_put)
  have "\<exists>b2 moves2 rem. wf_board b2 \<and> make_move_main g row col = finish_main g (b2, moves2, rem)"
  proof (cases "length (k @ [(row, col)]) > 3")
    case False
    then have "make_move_main g row col = finish_main g (?b1, k @ [(row, col)], None)"
      unfolding make_move_main_steps[OF vp bg st dg'] by (simp add: s1 py_bind_def)
    then show ?thesis using wf1 by blast
  next
    case True
    then obtain a rest where k: "k = a # rest" by (cases k) auto
    obtain ar ac where a: "a = (ar, ac)" by (cases a)
    have ain: "in_range (ar, ac)" using kr k a by simp
    have s2: "board_set ?b1 ar ac None = Inr (put ?b1 (ar, ac) None)"
      using wf1 ain by (rule board_set_wf)
    have "make_move_main g row col =
            finish_main g (put ?b1 (ar, ac) None, rest @ [(row, col)], Some (ar, ac))"
      unfolding make_move_main_steps[OF vp bg st dg'] using True k a
      by (simp add: s1 s2 py_bind_def)
    moreover have "wf_board (put ?b1 (ar, ac) None)" using wf1 ain by (rule wf_put)
    ultimately show ?thesis by blast
  qed
  then obtain b2 moves2 rem where wf2: "wf_board b2"
    and mv: "make_move_main g row col = finish_main g (b2, moves2, rem)" by blast
  have cw: "check_winner b2 = Inr (winner_of win_lines b2)" using wf2 by (rule check_winner_wf)
  show ?thesis
    unfolding mv
    by (simp add: finish_main_def cw py_bind_def Let_def get_board_state_def)
qed

lemma nearly_full_draw:
  "make_move nearly_full_game 2 2 =
     Inr (True, \<lparr>board = [[''X'', ''O'', ''X''], [''X'', ''O'', ''O''], [''O'', ''X'', ''X'']],
                 move_history_x = [(2, 2)], move_history_o = [],
                 current_player = Player_O, state = DRAW\<rparr>)"
  "check_draw [[''X'', ''O'', ''X''], [''X'', ''O'', ''O''], [''O'', ''X'', ''X'']] = Inr True"
  "check_draw (board nearly_full_game) = Inr False"
  "(case make_move_main nearly_full_main 2 2 of
      Inl e \<Rightarrow> False
    | Inr (res, g') \<Rightarrow> game_status g' = ''draw'' \<and> is_board_full (board_main g') \<and> success res)"
  "\<not> is_board_full (board_main nearly_full_main)"
  unfolding nearly_full_game_def nearly_full_main_def by code_simp+

lemma acceptable_main:
  assumes inv: "game_inv t"
  shows "acceptable t row col =
           (is_valid_position row col \<and> board_get (board_main (to_main t n)) row col = Inr None \<and>
            game_status (to_main t n) = ''ongoing'')"
proof (cases "in_range (row, col)")
  case False
  then show ?thesis by (auto simp: acceptable_def is_valid_position_def in_range_def)
next
  case True
  have wf: "wf_board (board t)" using inv by (simp add: game_inv_def)
  have wfm: "wf_board (map (map cell_main) (board t))" using wf by (simp add: wf_board_map)
  have a: "board_get (map (map cell_main) (board t)) row col = Inr (cell_main (cell (board t) (row, col)))"
    by (simp add: board_get_wf[OF wfm True] cell_map[OF wf True])
  have b: "(cell_main v = None) = (v = player_value Player_EMPTY)" for v
    by (simp add: cell_main_def)
  have c: "(status_main (state t) = ''ongoing'') = (state t = IN_PROGRESS)"
    by (cases "state t") simp_all
  have d: "is_valid_position row col" using True by (simp add: is_valid_position_def in_range_def)
  show ?thesis unfolding to_main_fields a acceptable_def using True d by (auto simp: b c)
qed

lemma acceptable_first:
  assumes wf: "wf_board (board s)"
  shows "acceptable s row col =
           (state s = IN_PROGRESS \<and> is_valid_position row col \<and>
            board_get (board s) row col = Inr (player_value Player_EMPTY))"
proof (cases "in_range (row, col)")
  case False
  then show ?thesis by (auto simp: acceptable_def is_valid_position_def in_range_def)
next
  case True
  have d: "is_valid_position row col" using True by (simp add: is_valid_position_def in_range_def)
  show ?thesis unfolding acceptable_def using True d by (simp add: board_get_wf[OF wf True])
qed

lemma reachable_main_not_full:
  assumes "reachable_main g"
  shows "\<not> is_board_full (board_main g)"
proof -
  from assms obtain t n where t: "reachable t" and g: "g = to_main t n"
    using reachable_main_to_main by blast
  have inv: "game_inv t" using t by (rule reachable_inv)
  have wf: "wf_board (board t)" and c: "consistent (board t) (move_history_x t) (move_history_o t)"
    and lx: "length (move_history_x t) \<le> 3" and lo: "length (move_history_o t) \<le> 3"
    using inv by (simp_all add: game_inv_def)
  show ?thesis unfolding g to_main_fields
    using never_full[OF c lx lo] by (simp add: full_main[OF wf])
qed

lemma sample_draw_facts:
  "occupied (board sample_game) '' '' = 6"
  "check_draw (board sample_game) = Inr False"
  "check_draw (board vanish_game) = Inr False"
  "check_win (board vanish_game) Player_X = Inr False"
  "wf_board (board nearly_full_game)"
  "wf_board (board_main nearly_full_main)"
  "board_get (board nearly_full_game) 2 2 = Inr '' ''"
  "board_get (board_main nearly_full_main) 2 2 = Inr None"
  unfolding sample_game_def vanish_game_def nearly_full_game_def nearly_full_main_def wf_board_def
  by code_simp+

lemma reject_message_main:
  assumes inv: "game_inv t"
  shows "reject_message t row col =
           (if \<not> is_valid_position row col
            then ''Invalid position. Row and column must be between 0-2.''
            else if board_get (board_main (to_main t n)) row col \<noteq> Inr None
            then ''Position already occupied.''
            else ''Game is over. Status: '' @ game_status (to_main t n))"
proof (cases "in_range (row, col)")
  case False
  then show ?thesis by (simp add: reject_message_def is_valid_position_def in_range_def)
next
  case True
  have wf: "wf_board (board t)" using inv by (simp add: game_inv_def)
  have wfm: "wf_board (map (map cell_main) (board t))" using wf by (simp add: wf_board_map)
  have a: "board_get (map (map cell_main) (board t)) row col = Inr (cell_main (cell (board t) (row, col)))"
    by (simp add: board_get_wf[OF wfm True] cell_map[OF wf True])
  have b: "(cell_main v = None) = (v = player_value Player_EMPTY)" for v
    by (simp add: cell_main_def)
  have d: "is_valid_position row col" using True by (simp add: is_valid_position_def in_range_def)
  show ?thesis unfolding to_main_fields a reject_message_def using True d by (simp add: b)
qed

lemma accepted_samples:
  "accepted_result pre_win_game won_game =
     Accepted ''Move successful''
       [[Some ''X'', Some ''X'', Some ''X''], [Some ''Y'', Some ''Y'', None], [None, None, None]]
       None ''Y'' ''X_wins'' (Some ''X'')"
  "accepted_result sample_game vanish_game =
     Accepted ''Move successful''
       [[None, Some ''X'', Some ''Y''], [None, Some ''Y'', Some ''X''], [None, Some ''Y'', Some ''X'']]
       (Some (0, 0)) ''Y'' ''ongoing'' None"
  by (simp_all add: accepted_result_def won_game_def pre_win_game_def sample_game_def vanish_game_def
      removed_by_def winner_after_def cell_main_def)

lemma wrong_removed:
  "\<not> well_reported (to_main sample_game 6) 2 2
       (Accepted ''Move successful''
          [[None, Some ''X'', Some ''Y''], [None, Some ''Y'', Some ''X''], [None, Some ''Y'', Some ''X'']]
          None ''Y'' ''ongoing'' None) (to_main vanish_game 7)"
  "\<not> well_reported (to_main sample_game 6) 2 2
       (Accepted ''Move successful''
          [[None, Some ''X'', Some ''Y''], [None, Some ''Y'', Some ''X''], [None, Some ''Y'', Some ''X'']]
          (Some (7, 7)) ''Y'' ''ongoing'' None) (to_main vanish_game 7)"
  by (simp_all add: well_reported_def to_main_fields sample_game_def)

section \<open>The claims\<close>

text \<open>
  C2. In every state reachable by move attempts and resets, the cells that hold a
  player's mark are exactly the coordinates of that player's history, and each history
  has at most three entries. For the second engine the histories are the two entries of
  the dictionary \<^verbatim>\<open>player_moves\<close>.
\<close>

theorem board_matches_histories:
  "(reachable s \<longrightarrow>
      set (marked (board s) (player_value Player_X)) = set (move_history_x s) \<and>
      set (marked (board s) (player_value Player_O)) = set (move_history_o s) \<and>
      length (move_history_x s) \<le> 3 \<and> length (move_history_o s) \<le> 3) \<and>
   (reachable_main g \<longrightarrow>
      (\<exists>hx ho. player_moves g ''X'' = Some hx \<and> player_moves g ''Y'' = Some ho \<and>
         set (marked (board_main g) (Some ''X'')) = set hx \<and>
         set (marked (board_main g) (Some ''Y'')) = set ho \<and>
         length hx \<le> 3 \<and> length ho \<le> 3))"
proof -
  have first: "set (marked (board s) (player_value Player_X)) = set (move_history_x s) \<and>
      set (marked (board s) (player_value Player_O)) = set (move_history_o s) \<and>
      length (move_history_x s) \<le> 3 \<and> length (move_history_o s) \<le> 3" if "reachable s"
  proof -
    have inv: "game_inv s" using that by (rule reachable_inv)
    then show ?thesis using marked_histories[OF inv] by (simp add: game_inv_def)
  qed
  have second: "\<exists>hx ho. player_moves g ''X'' = Some hx \<and> player_moves g ''Y'' = Some ho \<and>
         set (marked (board_main g) (Some ''X'')) = set hx \<and>
         set (marked (board_main g) (Some ''Y'')) = set ho \<and>
         length hx \<le> 3 \<and> length ho \<le> 3" if "reachable_main g"
  proof -
    from that obtain t n where t: "reachable t" and g: "g = to_main t n"
      using reachable_main_to_main by blast
    have inv: "game_inv t" using t by (rule reachable_inv)
    show ?thesis
      unfolding g using marked_histories(3,4)[OF inv] inv
      by (simp add: to_main_def game_inv_def)
  qed
  show ?thesis using first second by blast
qed

theorem board_matches_histories_witness:
  "reachable sample_game \<and> reachable_main (to_main sample_game 6) \<and>
   set (marked (board sample_game) ''X'') = {(0, 0), (0, 1), (1, 2)} \<and>
   set (marked (board sample_game) ''O'') = {(1, 1), (0, 2), (2, 1)} \<and>
   move_history_x sample_game = [(0, 0), (0, 1), (1, 2)] \<and>
   move_history_o sample_game = [(1, 1), (0, 2), (2, 1)] \<and>
   player_moves (to_main sample_game 6) ''X'' = Some [(0, 0), (0, 1), (1, 2)] \<and>
   player_moves (to_main sample_game 6) ''Y'' = Some [(1, 1), (0, 2), (2, 1)] \<and>
   set (marked (board_main (to_main sample_game 6)) (Some ''X'')) = {(0, 0), (0, 1), (1, 2)} \<and>
   set (marked (board_main (to_main sample_game 6)) (Some ''Y'')) = {(1, 1), (0, 2), (2, 1)}"
  using board_matches_histories [of sample_game "to_main sample_game 6"]
    sample_reachable sample_main_reachable
  by (auto simp: sample_game_def to_main_def)

text \<open>
  C4. A rejected move attempt leaves the whole state as it was. In the first engine a
  return value \<^verbatim>\<open>False\<close> comes with the unchanged board, histories, current player and
  state; in the second engine a rejection dictionary comes with the unchanged board,
  dictionary of moves, current player, status and move counter, and the board it reports
  is the unchanged one. This holds in every state, reachable or not: the validation
  returns before the first assignment.
\<close>

theorem rejected_move_changes_nothing:
  "(make_move s row col = Inr (False, s') \<longrightarrow> s' = s) \<and>
   (make_move_main g row col = Inr (Rejected msg b, g') \<longrightarrow> g' = g \<and> b = board_main g)"
proof -
  have first: "s' = s" if a: "make_move s row col = Inr (False, s')"
  proof (cases "is_valid_move s row col")
    case (Inl e)
    then show ?thesis using a by (simp add: make_move_def py_bind_def)
  next
    case (Inr valid)
    show ?thesis
    proof (cases valid)
      case False
      then show ?thesis using a Inr by (simp add: make_move_def py_bind_def)
    next
      case True
      then show ?thesis using a Inr
        by (simp add: make_move_def py_bind_def Let_def
            split: sum.splits if_splits list.splits prod.splits)
    qed
  qed
  have second: "g' = g \<and> b = board_main g"
    if a: "make_move_main g row col = Inr (Rejected msg b, g')"
    using a
    by (auto simp: make_move_main_def py_bind_def Let_def get_board_state_def
        split: sum.splits if_splits list.splits prod.splits)
  show ?thesis using first second by blast
qed

theorem rejected_move_changes_nothing_witness:
  "make_move new_game 3 0 = Inr (False, new_game) \<and>
   make_move_main new_game_main 3 0 =
     Inr (Rejected ''Invalid position. Row and column must be between 0-2.'' (board_main new_game_main),
          new_game_main)"
  using rejected_move_changes_nothing [of new_game 3 0 new_game new_game_main
      "''Invalid position. Row and column must be between 0-2.''" "board_main new_game_main" new_game_main]
  by (simp add: make_move_def is_valid_move_def new_game_def py_bind_def make_move_main_def
      is_valid_position_def get_board_state_def)

text \<open>
  C8. The two engines agree on every run of move attempts from the initial state: they
  return the same success flags, and they end with the same histories, with boards that
  agree cell by cell and with the same player to move and the same outcome, once the mark
  \<^verbatim>\<open>O\<close> is renamed to \<^verbatim>\<open>Y\<close>, the blank to \<^verbatim>\<open>None\<close>, and the state labels likewise
  (\<open>cell_main\<close>, \<open>player_main\<close>, \<open>status_main\<close>). Neither engine raises on any run.
\<close>

theorem engines_agree:
  "\<exists>oks s g. play new_game ms = Inr (oks, s) \<and> play_main new_game_main ms = Inr (oks, g) \<and>
      board_main g = map (map cell_main) (board s) \<and>
      player_moves g ''X'' = Some (move_history_x s) \<and>
      player_moves g ''Y'' = Some (move_history_o s) \<and>
      current_player_main g = player_main (current_player s) \<and>
      game_status g = status_main (state s)"
proof -
  from play_sim[OF game_inv_new, of ms 0] obtain oks s
    where a: "play new_game ms = Inr (oks, s)"
      and b: "play_main (to_main new_game 0) ms = Inr (oks, to_main s (0 + int (length (filter id oks))))"
    by blast
  show ?thesis
    using a b unfolding new_game_main_to_main
    by (intro exI[of _ oks] exI[of _ s] exI[of _ "to_main s (0 + int (length (filter id oks)))"])
       (simp add: to_main_def)
qed

theorem engines_agree_witness:
  "play new_game sample_moves = Inr ([True, True, True, True, True, True], sample_game) \<and>
   play_main new_game_main sample_moves = Inr ([True, True, True, True, True, True], to_main sample_game 6) \<and>
   board_main (to_main sample_game 6) =
     [[Some ''X'', Some ''X'', Some ''Y''], [None, Some ''Y'', Some ''X''], [None, Some ''Y'', None]] \<and>
   current_player_main (to_main sample_game 6) = ''X'' \<and>
   game_status (to_main sample_game 6) = ''ongoing''"
  using engines_agree [of sample_moves] sample_play play_main_of_play[OF sample_play]
  by (simp add: to_main_def sample_game_def cell_main_def)

text \<open>
  C5. Once the outcome is not in progress, every further move attempt is rejected and
  leaves the state, hence the outcome, as it is: a whole run of attempts returns only
  failure flags and the state it started from. A reset gives the initial state from any
  state. The first engine tests the outcome before anything else, so its part holds in
  every state; the second engine reads the board first, so its part is about reachable
  states.
\<close>

theorem concluded_game_stays_concluded:
  "(state s \<noteq> IN_PROGRESS \<longrightarrow> play s ms = Inr (replicate (length ms) False, s)) \<and>
   reset s = new_game \<and>
   (reachable_main g \<and> game_status g \<noteq> ''ongoing'' \<longrightarrow>
      play_main g ms = Inr (replicate (length ms) False, g)) \<and>
   snd (reset_game g) = new_game_main"
proof -
  have second: "play_main g ms = Inr (replicate (length ms) False, g)"
    if r: "reachable_main g" and c: "game_status g \<noteq> ''ongoing''"
  proof -
    from r obtain t n where t: "reachable t" and g: "g = to_main t n"
      using reachable_main_to_main by blast
    have inv: "game_inv t" using t by (rule reachable_inv)
    have "status_main (state t) \<noteq> ''ongoing''" using c unfolding g by (simp add: to_main_def)
    then show ?thesis unfolding g using inv by (simp add: concluded_main_play)
  qed
  show ?thesis
    using second concluded_play reset_new_game
    by (simp add: reset_game_to_main new_game_main_to_main)
qed

theorem concluded_game_stays_concluded_witness:
  "state won_game = X_WINS \<and>
   play won_game [(2, 2), (5, 5), (0, 0)] = Inr ([False, False, False], won_game) \<and>
   reset won_game = new_game \<and>
   reachable_main (to_main won_game 5) \<and> game_status (to_main won_game 5) = ''X_wins'' \<and>
   play_main (to_main won_game 5) [(2, 2), (5, 5), (0, 0)] = Inr ([False, False, False], to_main won_game 5) \<and>
   snd (reset_game (to_main won_game 5)) = new_game_main"
  using concluded_game_stays_concluded [of won_game "[(2, 2), (5, 5), (0, 0)]" "to_main won_game 5"]
    won_main_reachable
  by (simp add: won_game_def to_main_def)

text \<open>
  C10. In every reachable state the number of occupied cells is the sum of the two
  history lengths, hence at most six of the nine cells; so the full-board test that
  follows every accepted move answers no, and the draw outcome is never reached by moves
  and resets. The test itself is the real one: on any board of three rows of three cells
  \<^verbatim>\<open>_check_draw\<close> answers yes exactly when no cell is blank, \<^verbatim>\<open>_is_board_full\<close> exactly
  when no cell is \<^verbatim>\<open>None\<close>, and every accepted move, in any such state, reachable or not,
  sets the outcome to a win when the win test succeeds, else to a draw when the board is
  full, else leaves it.
\<close>

theorem draw_is_unreachable:
  "(reachable s \<longrightarrow>
      occupied (board s) (player_value Player_EMPTY) = length (move_history_x s) + length (move_history_o s) \<and>
      occupied (board s) (player_value Player_EMPTY) \<le> 6 \<and>
      check_draw (board s) = Inr False \<and> state s \<noteq> DRAW) \<and>
   (reachable_main g \<longrightarrow>
      (\<exists>hx ho. player_moves g ''X'' = Some hx \<and> player_moves g ''Y'' = Some ho \<and>
         occupied (board_main g) None = length hx + length ho) \<and>
      occupied (board_main g) None \<le> 6 \<and>
      \<not> is_board_full (board_main g) \<and> game_status g \<noteq> ''draw'') \<and>
   (wf_board b \<longrightarrow>
      check_draw b = Inr (list_all (\<lambda>line. list_all (\<lambda>v. v \<noteq> player_value Player_EMPTY) line) b)) \<and>
   is_board_full bm = list_all (\<lambda>line. list_all (\<lambda>v. v \<noteq> None) line) bm \<and>
   (wf_board (board t) \<and>
      list_all in_range (if current_player t = Player_X then move_history_x t else move_history_o t) \<and>
      state t = IN_PROGRESS \<and> is_valid_position row col \<and>
      board_get (board t) row col = Inr (player_value Player_EMPTY) \<longrightarrow>
      (\<exists>t' won full. make_move t row col = Inr (True, t') \<and>
         check_win (board t') (current_player t) = Inr won \<and>
         check_draw (board t') = Inr full \<and>
         state t' = (if won then (if current_player t = Player_X then X_WINS else O_WINS)
                     else if full then DRAW else state t))) \<and>
   (wf_board (board_main u) \<and> is_valid_position row col \<and>
      board_get (board_main u) row col = Inr None \<and> game_status u = ''ongoing'' \<and>
      player_moves u (current_player_main u) = Some k \<and> list_all in_range k \<longrightarrow>
      (\<exists>res u' w. make_move_main u row col = Inr (res, u') \<and> success res \<and>
         check_winner (board_main u') = Inr w \<and>
         game_status u' = (if truthy w then py_str w @ ''_wins''
                           else if is_board_full (board_main u') then ''draw''
                           else game_status u))) \<and>
   (reachable s \<and> make_move s row col = Inr (True, s') \<longrightarrow>
      (\<exists>won. check_win (board s') (current_player s) = Inr won \<and>
         check_draw (board s') = Inr False \<and>
         state s' = (if won then (if current_player s = Player_X then X_WINS else O_WINS)
                     else state s))) \<and>
   (reachable_main g \<and> make_move_main g row col = Inr (res, g') \<and> success res \<longrightarrow>
      (\<exists>w. check_winner (board_main g') = Inr w \<and> \<not> is_board_full (board_main g') \<and>
         game_status g' = (if truthy w then py_str w @ ''_wins'' else game_status g)))"
proof -
  have facts: "occupied (board t) (player_value Player_EMPTY) = length (move_history_x t) + length (move_history_o t)"
    "occupied (map (map cell_main) (board t)) None = length (move_history_x t) + length (move_history_o t)"
    "length (move_history_x t) + length (move_history_o t) \<le> 6"
    "check_draw (board t) = Inr False" "state t \<noteq> DRAW"
    "\<not> is_board_full (map (map cell_main) (board t))" if "game_inv t" for t
  proof -
    have wf: "wf_board (board t)" and c: "consistent (board t) (move_history_x t) (move_history_o t)"
      and lx: "length (move_history_x t) \<le> 3" and lo: "length (move_history_o t) \<le> 3"
      using that by (simp_all add: game_inv_def)
    show "occupied (board t) (player_value Player_EMPTY) = length (move_history_x t) + length (move_history_o t)"
      "occupied (map (map cell_main) (board t)) None = length (move_history_x t) + length (move_history_o t)"
      using occupied_histories[OF that] by simp_all
    show "length (move_history_x t) + length (move_history_o t) \<le> 6" using lx lo by simp
    show "check_draw (board t) = Inr False"
      using never_full[OF c lx lo] by (simp add: check_draw_wf[OF wf])
    show "state t \<noteq> DRAW" using that by (simp add: game_inv_def)
    show "\<not> is_board_full (map (map cell_main) (board t))"
      using never_full[OF c lx lo] by (simp add: full_main[OF wf])
  qed
  have first: "occupied (board s) (player_value Player_EMPTY) = length (move_history_x s) + length (move_history_o s) \<and>
      occupied (board s) (player_value Player_EMPTY) \<le> 6 \<and>
      check_draw (board s) = Inr False \<and> state s \<noteq> DRAW" if "reachable s"
    using facts[OF reachable_inv[OF that]] by simp
  have second: "(\<exists>hx ho. player_moves g ''X'' = Some hx \<and> player_moves g ''Y'' = Some ho \<and>
         occupied (board_main g) None = length hx + length ho) \<and>
      occupied (board_main g) None \<le> 6 \<and>
      \<not> is_board_full (board_main g) \<and> game_status g \<noteq> ''draw''" if "reachable_main g"
  proof -
    from that obtain t n where t: "reachable t" and g: "g = to_main t n"
      using reachable_main_to_main by blast
    have "status_main (state t) \<noteq> ''draw''"
      using facts(5)[OF reachable_inv[OF t]] by (cases "state t") simp_all
    then show ?thesis
      unfolding g using facts[OF reachable_inv[OF t]] by (simp add: to_main_def)
  qed
  have third: "check_draw b = Inr (list_all (\<lambda>line. list_all (\<lambda>v. v \<noteq> player_value Player_EMPTY) line) b)"
    if "wf_board b" using that by (rule check_draw_rows)
  have fourth: "is_board_full bm = list_all (\<lambda>line. list_all (\<lambda>v. v \<noteq> None) line) bm"
    by (simp add: is_board_full_def)
  have fifth: "\<exists>t' won full. make_move t row col = Inr (True, t') \<and>
         check_win (board t') (current_player t) = Inr won \<and>
         check_draw (board t') = Inr full \<and>
         state t' = (if won then (if current_player t = Player_X then X_WINS else O_WINS)
                     else if full then DRAW else state t)"
    if wf: "wf_board (board t)"
      and hr: "list_all in_range (if current_player t = Player_X then move_history_x t else move_history_o t)"
      and c: "state t = IN_PROGRESS" "is_valid_position row col"
        "board_get (board t) row col = Inr (player_value Player_EMPTY)"
  proof -
    have "acceptable t row col" unfolding acceptable_first[OF wf] using c by simp
    with wf hr show ?thesis by (rule make_move_general)
  qed
  have sixth: "\<exists>res u' w. make_move_main u row col = Inr (res, u') \<and> success res \<and>
         check_winner (board_main u') = Inr w \<and>
         game_status u' = (if truthy w then py_str w @ ''_wins''
                           else if is_board_full (board_main u') then ''draw''
                           else game_status u)"
    if "wf_board (board_main u)" "is_valid_position row col"
      "board_get (board_main u) row col = Inr None" "game_status u = ''ongoing''"
      "player_moves u (current_player_main u) = Some k" "list_all in_range k"
    using that by (rule make_move_main_general)
  have seventh: "\<exists>won. check_win (board s') (current_player s) = Inr won \<and>
         check_draw (board s') = Inr False \<and>
         state s' = (if won then (if current_player s = Player_X then X_WINS else O_WINS)
                     else state s)"
    if r: "reachable s" and mv: "make_move s row col = Inr (True, s')"
  proof -
    have inv: "game_inv s" using r by (rule reachable_inv)
    have acc: "acceptable s row col"
      using mv unfolding make_move_cases[OF inv] by (simp split: if_splits)
    have wf: "wf_board (board s)"
      and hr: "list_all in_range (if current_player s = Player_X then move_history_x s else move_history_o s)"
      using inv by (simp_all add: game_inv_def)
    from make_move_general[OF wf hr acc] obtain t' won full
      where a: "make_move s row col = Inr (True, t')"
        and b: "check_win (board t') (current_player s) = Inr won"
        and c: "check_draw (board t') = Inr full"
        and d: "state t' = (if won then (if current_player s = Player_X then X_WINS else O_WINS)
                     else if full then DRAW else state s)"
      by blast
    have e: "t' = s'" using a mv by simp
    have "reachable s'" using r mv by (rule reach_move)
    then have "check_draw (board s') = Inr False" using facts(4)[OF reachable_inv] by simp
    then have "\<not> full" using c unfolding e by simp
    then show ?thesis using b c d unfolding e by auto
  qed
  have eighth: "\<exists>w. check_winner (board_main g') = Inr w \<and> \<not> is_board_full (board_main g') \<and>
         game_status g' = (if truthy w then py_str w @ ''_wins'' else game_status g)"
    if r: "reachable_main g" and mv: "make_move_main g row col = Inr (res, g')" and ok: "success res"
  proof -
    from r obtain t n where t: "reachable t" and g: "g = to_main t n"
      using reachable_main_to_main by blast
    have inv: "game_inv t" using t by (rule reachable_inv)
    have cp: "current_player t = Player_X \<or> current_player t = Player_O"
      and rx: "list_all in_range (move_history_x t)" and ro: "list_all in_range (move_history_o t)"
      and wf: "wf_board (board t)"
      using inv by (simp_all add: game_inv_def)
    have acc: "acceptable t row col"
      using mv ok unfolding g make_move_main_cases[OF inv] by (auto split: if_splits)
    note am = acc[unfolded acceptable_main[OF inv, of row col n]]
    let ?k = "if current_player t = Player_X then move_history_x t else move_history_o t"
    have dk: "player_moves g (current_player_main g) = Some ?k"
      unfolding g to_main_fields using cp by auto
    have kr: "list_all in_range ?k" using rx ro by simp
    have wfm: "wf_board (board_main g)" unfolding g to_main_fields using wf by (simp add: wf_board_map)
    from make_move_main_general[OF wfm _ _ _ dk kr, of row col] am obtain res2 u' w
      where a: "make_move_main g row col = Inr (res2, u')"
        and b: "check_winner (board_main u') = Inr w"
        and c: "game_status u' = (if truthy w then py_str w @ ''_wins''
                             else if is_board_full (board_main u') then ''draw''
                             else game_status g)"
      unfolding g by blast
    have e: "u' = g'" using a mv by simp
    have "reachable_main g'" using r mv by (rule reach_main_move)
    then have nf: "\<not> is_board_full (board_main g')" by (rule reachable_main_not_full)
    show ?thesis using b c nf unfolding e by auto
  qed
  show ?thesis
    using first second third fourth fifth sixth seventh eighth by blast
qed

theorem draw_is_unreachable_witness:
  "reachable sample_game \<and> reachable_main (to_main sample_game 6) \<and>
   occupied (board sample_game) '' '' = 6 \<and>
   length (move_history_x sample_game) + length (move_history_o sample_game) = 6 \<and>
   check_draw (board sample_game) = Inr False \<and> state sample_game = IN_PROGRESS \<and>
   occupied (board_main (to_main sample_game 6)) None = 6 \<and>
   \<not> is_board_full (board_main (to_main sample_game 6)) \<and>
   game_status (to_main sample_game 6) = ''ongoing'' \<and>
   make_move sample_game 2 2 = Inr (True, vanish_game) \<and>
   check_win (board vanish_game) Player_X = Inr False \<and>
   check_draw (board vanish_game) = Inr False \<and> state vanish_game = IN_PROGRESS \<and>
   make_move_main (to_main sample_game 6) 2 2 =
     Inr (accepted_result sample_game vanish_game, to_main vanish_game 7) \<and>
   success (accepted_result sample_game vanish_game) \<and>
   game_status (to_main vanish_game 7) = ''ongoing'' \<and>
   wf_board (board nearly_full_game) \<and> state nearly_full_game = IN_PROGRESS \<and>
   is_valid_position 2 2 \<and> board_get (board nearly_full_game) 2 2 = Inr '' '' \<and>
   check_draw (board nearly_full_game) = Inr False \<and>
   make_move nearly_full_game 2 2 =
     Inr (True, \<lparr>board = [[''X'', ''O'', ''X''], [''X'', ''O'', ''O''], [''O'', ''X'', ''X'']],
                 move_history_x = [(2, 2)], move_history_o = [],
                 current_player = Player_O, state = DRAW\<rparr>) \<and>
   check_draw [[''X'', ''O'', ''X''], [''X'', ''O'', ''O''], [''O'', ''X'', ''X'']] = Inr True \<and>
   wf_board (board_main nearly_full_main) \<and>
   board_get (board_main nearly_full_main) 2 2 = Inr None \<and>
   game_status nearly_full_main = ''ongoing'' \<and>
   player_moves nearly_full_main (current_player_main nearly_full_main) = Some [] \<and>
   \<not> is_board_full (board_main nearly_full_main) \<and>
   (case make_move_main nearly_full_main 2 2 of
      Inl e \<Rightarrow> False
    | Inr (res, g') \<Rightarrow> game_status g' = ''draw'' \<and> is_board_full (board_main g') \<and> success res)"
  using draw_is_unreachable [where s = sample_game and g = "to_main sample_game 6"
      and b = "board nearly_full_game" and bm = "board_main nearly_full_main"
      and t = nearly_full_game and row = 2 and col = 2 and u = nearly_full_main and k = "[]"
      and s' = vanish_game and res = "accepted_result sample_game vanish_game"
      and g' = "to_main vanish_game 7"]
    sample_reachable sample_main_reachable sample_move
    main_move_of_move[OF sample_reachable sample_move, of 6]
    nearly_full_draw sample_draw_facts
  by (simp add: sample_game_def vanish_game_def to_main_def nearly_full_game_def
      nearly_full_main_def is_valid_position_def accepted_result_def)



text \<open>
  C1. In a reachable state that is in progress, a move to an empty cell inside the grid
  is accepted. If the mover's history has three entries, its head is dropped, the new
  coordinate is appended and the history still has three entries; of the board, the cell
  of the dropped head becomes empty, the target cell takes the mover's mark, and every
  other cell keeps its value (\<open>board_changes\<close>). If the history has fewer than three
  entries, nothing is dropped, the coordinate is appended and only the target cell
  changes. The other player's history is untouched. The second engine places first and
  clears afterwards, with the same effect, and reports the dropped coordinate as
  \<^verbatim>\<open>removed_piece\<close>.
\<close>

theorem oldest_piece_vanishes:
  "(reachable s \<and> state s = IN_PROGRESS \<and> 0 \<le> row \<and> row \<le> 2 \<and> 0 \<le> col \<and> col \<le> 2 \<and>
      board_get (board s) row col = Inr (player_value Player_EMPTY) \<and>
      h = get_move_history s (current_player s) \<longrightarrow>
      length h \<le> 3 \<and>
      (\<exists>s'. make_move s row col = Inr (True, s') \<and>
         get_move_history s' (current_player s) = (if length h = 3 then tl h else h) @ [(row, col)] \<and>
         length (get_move_history s' (current_player s)) = (if length h = 3 then 3 else length h + 1) \<and>
         get_move_history s' (other_player (current_player s)) = get_move_history s (other_player (current_player s)) \<and>
         board_changes (board s) (board s') (if length h = 3 then Some (hd h) else None)
           (row, col) (player_value (current_player s)) (player_value Player_EMPTY))) \<and>
   (reachable_main g \<and> game_status g = ''ongoing'' \<and> is_valid_position row col \<and>
      board_get (board_main g) row col = Inr None \<and>
      player_moves g (current_player_main g) = Some k \<longrightarrow>
      length k \<le> 3 \<and>
      (\<exists>res g'. make_move_main g row col = Inr (res, g') \<and> success res \<and>
         removed_piece res = (if length k = 3 then Some (hd k) else None) \<and>
         player_moves g' (current_player_main g) = Some ((if length k = 3 then tl k else k) @ [(row, col)]) \<and>
         player_moves g' (current_player_main g') = player_moves g (current_player_main g') \<and>
         board_changes (board_main g) (board_main g') (if length k = 3 then Some (hd k) else None)
           (row, col) (Some (current_player_main g)) None))"
proof -
  have first: "length h \<le> 3 \<and>
      (\<exists>s'. make_move s row col = Inr (True, s') \<and>
         get_move_history s' (current_player s) = (if length h = 3 then tl h else h) @ [(row, col)] \<and>
         length (get_move_history s' (current_player s)) = (if length h = 3 then 3 else length h + 1) \<and>
         get_move_history s' (other_player (current_player s)) = get_move_history s (other_player (current_player s)) \<and>
         board_changes (board s) (board s') (if length h = 3 then Some (hd h) else None)
           (row, col) (player_value (current_player s)) (player_value Player_EMPTY))"
    if r: "reachable s" and st: "state s = IN_PROGRESS"
      and rc: "0 \<le> row" "row \<le> 2" "0 \<le> col" "col \<le> 2"
      and e: "board_get (board s) row col = Inr (player_value Player_EMPTY)"
      and h: "h = get_move_history s (current_player s)"
  proof -
    have inv: "game_inv s" using r by (rule reachable_inv)
    have wf: "wf_board (board s)"
      and cp: "current_player s = Player_X \<or> current_player s = Player_O"
      using inv by (simp_all add: game_inv_def)
    have p: "in_range (row, col)" using rc by (simp add: in_range_def)
    have acc: "acceptable s row col"
      using e st p by (simp add: acceptable_def board_get_wf[OF wf p])
    have h': "h = (if current_player s = Player_X then move_history_x s else move_history_o s)"
      using h cp by (auto simp: get_move_history_def)
    define v where "v = (if length h = 3 then Some (hd h) else None)"
    note ba = board_after_move[OF inv acc h' v_def]
    have l3: "length h \<le> 3" by (rule ba(4))
    have ge: "(length h \<ge> 3) = (length h = 3)" using l3 by auto
    have mv: "make_move s row col = Inr (True, after_move s row col)"
      using make_move_cases[OF inv] acc by simp
    have bc: "board_changes (board s) (board (after_move s row col)) v
           (row, col) (player_value (current_player s)) (player_value Player_EMPTY)"
      unfolding ba(1) using wf p ba(3) by (rule board_changes_put)
    have hist: "get_move_history (after_move s row col) (current_player s)
                  = (if length h = 3 then tl h else h) @ [(row, col)]"
      "get_move_history (after_move s row col) (other_player (current_player s))
                  = get_move_history s (other_player (current_player s))"
      using cp h' ge
      by (auto simp: get_move_history_def after_move_fields other_player_def)
    have len: "length ((if length h = 3 then tl h else h) @ [(row, col)]) = (if length h = 3 then 3 else length h + 1)"
      by simp
    show ?thesis
      using l3 mv hist len bc unfolding v_def by simp
  qed
  have second: "length k \<le> 3 \<and>
      (\<exists>res g'. make_move_main g row col = Inr (res, g') \<and> success res \<and>
         removed_piece res = (if length k = 3 then Some (hd k) else None) \<and>
         player_moves g' (current_player_main g) = Some ((if length k = 3 then tl k else k) @ [(row, col)]) \<and>
         player_moves g' (current_player_main g') = player_moves g (current_player_main g') \<and>
         board_changes (board_main g) (board_main g') (if length k = 3 then Some (hd k) else None)
           (row, col) (Some (current_player_main g)) None)"
    if r: "reachable_main g" and st: "game_status g = ''ongoing''"
      and vp: "is_valid_position row col"
      and e: "board_get (board_main g) row col = Inr None"
      and k: "player_moves g (current_player_main g) = Some k"
  proof -
    from r obtain t n where t: "reachable t" and g: "g = to_main t n"
      using reachable_main_to_main by blast
    have inv: "game_inv t" using t by (rule reachable_inv)
    have wf: "wf_board (board t)"
      and cp: "current_player t = Player_X \<or> current_player t = Player_O"
      using inv by (simp_all add: game_inv_def)
    have wfm: "wf_board (map (map cell_main) (board t))" using wf by (simp add: wf_board_map)
    have p: "in_range (row, col)" using vp by (simp add: in_range_def is_valid_position_def)
    have st': "state t = IN_PROGRESS"
      using st unfolding g to_main_fields by (cases "state t") simp_all
    have "cell_main (cell (board t) (row, col)) = None"
      using e unfolding g to_main_fields by (simp add: board_get_wf[OF wfm p] cell_map[OF wf p])
    then have "cell (board t) (row, col) = player_value Player_EMPTY"
      by (simp add: cell_main_def split: if_splits)
    then have acc: "acceptable t row col" using st' p by (simp add: acceptable_def)
    have k': "k = (if current_player t = Player_X then move_history_x t else move_history_o t)"
      using k cp unfolding g to_main_fields by auto
    define v where "v = (if length k = 3 then Some (hd k) else None)"
    note ba = board_after_move[OF inv acc k' v_def]
    have l3: "length k \<le> 3" by (rule ba(4))
    have ge: "(length k \<ge> 3) = (length k = 3)" using l3 by auto
    let ?t' = "after_move t row col"
    have mv: "make_move_main g row col = Inr (accepted_result t ?t', to_main ?t' (n + 1))"
      unfolding g using make_move_main_cases[OF inv] acc by simp
    have rem: "removed_piece (accepted_result t ?t') = v"
      unfolding v_def using k' ge by (simp add: accepted_result_def removed_by_def)
    have bc: "board_changes (board_main g) (board_main (to_main ?t' (n + 1))) v
           (row, col) (Some (current_player_main g)) None"
      unfolding g to_main_fields ba(2) using wfm p ba(3) by (rule board_changes_put)
    have hist: "player_moves (to_main ?t' (n + 1)) (current_player_main g)
                  = Some ((if length k = 3 then tl k else k) @ [(row, col)])"
      "player_moves (to_main ?t' (n + 1)) (current_player_main (to_main ?t' (n + 1)))
                  = player_moves g (current_player_main (to_main ?t' (n + 1)))"
      unfolding g to_main_fields using cp k' ge
      by (auto simp: after_move_fields other_player_def)
    show ?thesis
      using l3 mv rem hist bc unfolding v_def by (simp add: accepted_result_def)
  qed
  show ?thesis using first second by blast
qed

theorem oldest_piece_vanishes_witness:
  "reachable sample_game \<and> state sample_game = IN_PROGRESS \<and>
   board_get (board sample_game) 2 2 = Inr '' '' \<and>
   get_move_history sample_game (current_player sample_game) = [(0, 0), (0, 1), (1, 2)] \<and>
   make_move sample_game 2 2 = Inr (True, vanish_game) \<and>
   get_move_history vanish_game (current_player sample_game) = [(0, 1), (1, 2), (2, 2)] \<and>
   board_get (board vanish_game) 0 0 = Inr '' '' \<and>
   board_get (board vanish_game) 2 2 = Inr ''X'' \<and>
   board_changes (board sample_game) (board vanish_game) (Some (0, 0)) (2, 2) ''X'' '' '' \<and>
   reachable_main (to_main sample_game 6) \<and>
   make_move_main (to_main sample_game 6) 2 2 = Inr (accepted_result sample_game vanish_game, to_main vanish_game 7) \<and>
   removed_piece (accepted_result sample_game vanish_game) = Some (0, 0) \<and>
   player_moves (to_main vanish_game 7) ''X'' = Some [(0, 1), (1, 2), (2, 2)] \<and>
   reachable pre_win_game \<and> state pre_win_game = IN_PROGRESS \<and>
   board_get (board pre_win_game) 0 2 = Inr '' '' \<and>
   get_move_history pre_win_game (current_player pre_win_game) = [(0, 0), (0, 1)] \<and>
   make_move pre_win_game 0 2 = Inr (True, won_game) \<and>
   get_move_history won_game (current_player pre_win_game) = [(0, 0), (0, 1), (0, 2)] \<and>
   board_changes (board pre_win_game) (board won_game) None (0, 2) ''X'' '' '' \<and>
   removed_piece (accepted_result pre_win_game won_game) = None"
proof -
  have a: "removed_piece (accepted_result sample_game vanish_game) = Some (0, 0)"
    "player_moves (to_main vanish_game 7) ''X'' = Some [(0, 1), (1, 2), (2, 2)]"
    "removed_piece (accepted_result pre_win_game won_game) = None"
    by (simp_all add: accepted_result_def removed_by_def sample_game_def pre_win_game_def
        to_main_fields vanish_game_def)
  note t1 = oldest_piece_vanishes [of sample_game 2 2 "[(0, 0), (0, 1), (1, 2)]"
      "to_main sample_game 6" "[(0, 0), (0, 1), (1, 2)]"]
  note t2 = oldest_piece_vanishes [of pre_win_game 0 2 "[(0, 0), (0, 1)]"
      "to_main pre_win_game 4" "[(0, 0), (0, 1)]"]
  show ?thesis
    using t1 t2 a sample_reachable sample_main_reachable sample_move
      main_move_of_move[OF sample_reachable sample_move, of 6]
      pre_win_reachable pre_win_move sample_facts pre_win_facts
    by simp
qed

text \<open>
  C9. In a reachable state the two players never both hold a completed line, and right
  after an accepted move the player who did not move holds none: the win test of the
  first engine for that player answers no, and the win search of the second engine
  returns nobody or the mover. Hence the order of the eight lines does not matter: the
  first engine's test equals the existence of a completed line in any list \<open>ls\<close> with
  the same lines, and the second engine's search returns what \<open>winner_of ls\<close> finds
  going through the lines in the order \<open>ls\<close>.
\<close>

theorem one_winner_whatever_the_order:
  "(reachable s \<longrightarrow>
      \<not> (check_win (board s) Player_X = Inr True \<and> check_win (board s) Player_O = Inr True)) \<and>
   (reachable s \<and> make_move s row col = Inr (True, s') \<longrightarrow>
      check_win (board s') (other_player (current_player s)) = Inr False) \<and>
   (reachable s \<and> set ls = set win_lines \<longrightarrow>
      check_win (board s) p = Inr (list_ex (\<lambda>l. list_all (\<lambda>q. cell (board s) q = player_value p) l) ls)) \<and>
   (reachable_main g \<and> set ls = set win_lines \<longrightarrow>
      check_winner (board_main g) = Inr (winner_of ls (board_main g))) \<and>
   (reachable_main g \<and> make_move_main g row col = Inr (res, g') \<and> success res \<longrightarrow>
      check_winner (board_main g') = Inr None \<or>
      check_winner (board_main g') = Inr (Some (current_player_main g)))"
proof -
  have first: "\<not> (check_win (board s) Player_X = Inr True \<and> check_win (board s) Player_O = Inr True)"
    if r: "reachable s"
  proof -
    have inv: "game_inv s" using r by (rule reachable_inv)
    then show ?thesis by (simp add: game_inv_def check_win_wf)
  qed
  have second: "check_win (board s') (other_player (current_player s)) = Inr False"
    if r: "reachable s" and mv: "make_move s row col = Inr (True, s')"
  proof -
    have inv: "game_inv s" using r by (rule reachable_inv)
    have acc: "acceptable s row col"
      using mv unfolding make_move_cases[OF inv] by (simp split: if_splits)
    have s': "s' = after_move s row col"
      using mv acc unfolding make_move_cases[OF inv] by simp
    have "wf_board (board s')"
      using game_inv_after_move[OF inv acc] unfolding s' by (simp add: game_inv_def)
    then show ?thesis
      using non_mover_no_line[OF inv acc] unfolding s' by (simp add: check_win_wf)
  qed
  have third: "check_win (board s) p = Inr (list_ex (\<lambda>l. list_all (\<lambda>q. cell (board s) q = player_value p) l) ls)"
    if r: "reachable s" and ls: "set ls = set win_lines"
  proof -
    have "wf_board (board s)" using reachable_inv[OF r] by (simp add: game_inv_def)
    then show ?thesis by (simp add: check_win_wf has_line_def list_ex_iff ls)
  qed
  have fourth: "check_winner (board_main g) = Inr (winner_of ls (board_main g))"
    if r: "reachable_main g" and ls: "set ls = set win_lines"
  proof -
    from r obtain t n where t: "reachable t" and g: "g = to_main t n"
      using reachable_main_to_main by blast
    have inv: "game_inv t" using t by (rule reachable_inv)
    have wfm: "wf_board (map (map cell_main) (board t))"
      using inv by (simp add: game_inv_def wf_board_map)
    show ?thesis
      unfolding g to_main_fields check_winner_wf[OF wfm] winner_main_any[OF inv ls] winner_main[OF inv] ..
  qed
  have fifth: "check_winner (board_main g') = Inr None \<or>
      check_winner (board_main g') = Inr (Some (current_player_main g))"
    if r: "reachable_main g" and mv: "make_move_main g row col = Inr (res, g')" and ok: "success res"
  proof -
    from r obtain t n where t: "reachable t" and g: "g = to_main t n"
      using reachable_main_to_main by blast
    have inv: "game_inv t" using t by (rule reachable_inv)
    have cp: "current_player t = Player_X \<or> current_player t = Player_O"
      using inv by (simp add: game_inv_def)
    have acc: "acceptable t row col"
      using mv ok unfolding g make_move_main_cases[OF inv] by (auto split: if_splits)
    have g': "g' = to_main (after_move t row col) (n + 1)"
      using mv acc unfolding g make_move_main_cases[OF inv] by simp
    have inv': "game_inv (after_move t row col)" using inv acc by (rule game_inv_after_move)
    have wfm: "wf_board (map (map cell_main) (board (after_move t row col)))"
      using inv' by (simp add: game_inv_def wf_board_map)
    show ?thesis
      unfolding g g' to_main_fields check_winner_wf[OF wfm] winner_main[OF inv']
      using cp non_mover_no_line[OF inv acc]
      by (auto simp: other_player_def)
  qed
  show ?thesis using first second third fourth fifth by blast
qed

theorem one_winner_whatever_the_order_witness:
  "reachable pre_win_game \<and> make_move pre_win_game 0 2 = Inr (True, won_game) \<and>
   reachable won_game \<and> set (rev win_lines) = set win_lines \<and>
   check_win (board won_game) Player_X = Inr True \<and>
   check_win (board won_game) Player_O = Inr False \<and>
   check_win (board won_game) Player_X =
     Inr (list_ex (\<lambda>l. list_all (\<lambda>q. cell (board won_game) q = player_value Player_X) l) (rev win_lines)) \<and>
   reachable_main (to_main pre_win_game 4) \<and> reachable_main (to_main won_game 5) \<and>
   make_move_main (to_main pre_win_game 4) 0 2 = Inr (accepted_result pre_win_game won_game, to_main won_game 5) \<and>
   success (accepted_result pre_win_game won_game) \<and>
   check_winner (board_main (to_main won_game 5)) = Inr (Some ''X'') \<and>
   winner_of (rev win_lines) (board_main (to_main won_game 5)) = Some ''X''"
  using one_winner_whatever_the_order [of won_game 0 2 won_game "rev win_lines" Player_X
      "to_main won_game 5" "accepted_result pre_win_game won_game" "to_main won_game 5"]
    one_winner_whatever_the_order [of pre_win_game 0 2 won_game "rev win_lines" Player_X
      "to_main pre_win_game 4" "accepted_result pre_win_game won_game" "to_main won_game 5"]
    pre_win_reachable pre_win_move won_reachable pre_win_main_reachable won_main_reachable
    pre_win_main_move won_checks
  by (simp add: to_main_fields accepted_result_def)

text \<open>
  C3, as stated, fails on the second engine. After the five moves \<open>won_moves\<close> X has won.
  An attempt at (3, 0) on that concluded game is rejected with the out-of-bounds message,
  not with the game-over message, and an attempt at the occupied cell (0, 0) is rejected
  as occupied.
\<close>

theorem concluded_first_counterexample:
  "play_main new_game_main won_moves = Inr ([True, True, True, True, True], to_main won_game 5) \<and>
   to_main won_game 5 =
     \<lparr>board_main = [[Some ''X'', Some ''X'', Some ''X''], [Some ''Y'', Some ''Y'', None], [None, None, None]],
      player_moves = [''X'' \<mapsto> [(0, 0), (0, 1), (0, 2)], ''Y'' \<mapsto> [(1, 0), (1, 1)]],
      current_player_main = ''Y'', game_status = ''X_wins'', total_moves = 5\<rparr> \<and>
   make_move_main (to_main won_game 5) 3 0 =
     Inr (Rejected ''Invalid position. Row and column must be between 0-2.''
            (board_main (to_main won_game 5)), to_main won_game 5) \<and>
   make_move_main (to_main won_game 5) 3 0 \<noteq>
     Inr (Rejected (''Game is over. Status: '' @ game_status (to_main won_game 5))
            (board_main (to_main won_game 5)), to_main won_game 5) \<and>
   make_move_main (to_main won_game 5) 0 0 =
     Inr (Rejected ''Position already occupied.'' (board_main (to_main won_game 5)), to_main won_game 5)"
  using play_main_of_play[OF won_play] won_main_explicit won_main_rejections
  by simp

text \<open>
  C3, amended. Each engine tests its preconditions in a fixed order and the first failure
  decides. \<^verbatim>\<open>is_valid_move\<close> of the first engine tests the outcome, then the bounds, then
  the target cell, and answers a bare \<^verbatim>\<open>False\<close> in all three cases, after which
  \<^verbatim>\<open>make_move\<close> returns \<^verbatim>\<open>False\<close> and the unchanged state. \<^verbatim>\<open>make_move\<close> of the second
  engine tests the bounds first, then the target cell, then the outcome, each with its own
  message; so an out-of-bounds attempt on a concluded game is reported as an invalid
  position. The theorem holds in every state, reachable or not.
\<close>

theorem validation_order_of_each_engine:
  "(state s \<noteq> IN_PROGRESS \<longrightarrow>
      is_valid_move s row col = Inr False \<and> make_move s row col = Inr (False, s)) \<and>
   (state s = IN_PROGRESS \<and> (row < 0 \<or> row > 2 \<or> col < 0 \<or> col > 2) \<longrightarrow>
      is_valid_move s row col = Inr False \<and> make_move s row col = Inr (False, s)) \<and>
   (state s = IN_PROGRESS \<and> \<not> (row < 0 \<or> row > 2 \<or> col < 0 \<or> col > 2) \<and>
      board_get (board s) row col = Inr v \<and> v \<noteq> player_value Player_EMPTY \<longrightarrow>
      is_valid_move s row col = Inr False \<and> make_move s row col = Inr (False, s)) \<and>
   (\<not> is_valid_position row col \<longrightarrow>
      make_move_main g row col =
        Inr (Rejected ''Invalid position. Row and column must be between 0-2.'' (board_main g), g)) \<and>
   (is_valid_position row col \<and> board_get (board_main g) row col = Inr (Some w) \<longrightarrow>
      make_move_main g row col = Inr (Rejected ''Position already occupied.'' (board_main g), g)) \<and>
   (is_valid_position row col \<and> board_get (board_main g) row col = Inr None \<and>
      game_status g \<noteq> ''ongoing'' \<longrightarrow>
      make_move_main g row col =
        Inr (Rejected (''Game is over. Status: '' @ game_status g) (board_main g), g))"
  by (simp add: is_valid_move_def make_move_def make_move_main_def py_bind_def get_board_state_def)

theorem validation_order_of_each_engine_witness:
  "state won_game \<noteq> IN_PROGRESS \<and> make_move won_game 3 0 = Inr (False, won_game) \<and>
   state pre_win_game = IN_PROGRESS \<and> make_move pre_win_game 3 0 = Inr (False, pre_win_game) \<and>
   board_get (board pre_win_game) 0 0 = Inr ''X'' \<and>
   make_move pre_win_game 0 0 = Inr (False, pre_win_game) \<and>
   \<not> is_valid_position 3 0 \<and>
   make_move_main (to_main won_game 5) 3 0 =
     Inr (Rejected ''Invalid position. Row and column must be between 0-2.''
            (board_main (to_main won_game 5)), to_main won_game 5) \<and>
   is_valid_position 0 0 \<and>
   board_get (board_main (to_main pre_win_game 4)) 0 0 = Inr (Some ''X'') \<and>
   make_move_main (to_main pre_win_game 4) 0 0 =
     Inr (Rejected ''Position already occupied.'' (board_main (to_main pre_win_game 4)), to_main pre_win_game 4) \<and>
   is_valid_position 2 2 \<and>
   board_get (board_main (to_main won_game 5)) 2 2 = Inr None \<and>
   game_status (to_main won_game 5) = ''X_wins'' \<and>
   make_move_main (to_main won_game 5) 2 2 =
     Inr (Rejected ''Game is over. Status: X_wins'' (board_main (to_main won_game 5)), to_main won_game 5)"
  using validation_order_of_each_engine [of won_game 3 0 "''X''" "to_main won_game 5" "''X''"]
    validation_order_of_each_engine [of pre_win_game 3 0 "''X''" "to_main won_game 5" "''X''"]
    validation_order_of_each_engine [of pre_win_game 0 0 "''X''" "to_main pre_win_game 4" "''X''"]
    validation_order_of_each_engine [of won_game 2 2 "''X''" "to_main won_game 5" "''X''"]
    won_gets
  by (simp add: is_valid_position_def won_game_def pre_win_game_def to_main_fields)

text \<open>
  C7, as stated, fails on the first engine: its \<^verbatim>\<open>make_move\<close> returns a bare boolean.
  In the reachable state \<open>pre_win_game\<close> an attempt outside the grid and an attempt at
  an occupied cell return the same value, so the caller cannot tell the reasons apart;
  an accepted move returns \<^verbatim>\<open>True\<close> and nothing else.
\<close>

theorem bare_flag_counterexample:
  "state pre_win_game = IN_PROGRESS \<and>
   \<not> is_valid_position 3 0 \<and> board_get (board pre_win_game) 0 0 = Inr ''X'' \<and>
   make_move pre_win_game 3 0 = Inr (False, pre_win_game) \<and>
   make_move pre_win_game 0 0 = Inr (False, pre_win_game) \<and>
   make_move pre_win_game 3 0 = make_move pre_win_game 0 0 \<and>
   make_move pre_win_game 0 2 = Inr (True, won_game)"
proof -
  have "make_move pre_win_game 3 0 = Inr (False, pre_win_game)"
    "make_move pre_win_game 0 0 = Inr (False, pre_win_game)"
    unfolding pre_win_game_def by code_simp+
  then show ?thesis
    using pre_win_move by (simp add: is_valid_position_def pre_win_game_def board_get_def
        py_getitem_def list_slot_def py_bind_def)
qed

text \<open>
  C7, amended. No move attempt with integer coordinates raises in a reachable state. The
  first engine returns only the success flag, true exactly when the game is in progress
  and the target is an empty cell inside the grid, and leaves the state unchanged when
  the flag is false. The second engine returns a dictionary (\<open>well_reported\<close>): on
  success the flag, the message, the board, current player and status of the new state,
  the winner, which is what the win search finds on the new board and is set exactly when
  the status is a win, and the coordinate removed this turn, which is the head of the
  mover's history when that history had three entries and nothing otherwise, the only
  cell besides the target whose value changes; on rejection the flag, the unchanged board
  and the message of the first guard that failed.
\<close>

theorem move_results:
  "(reachable s \<longrightarrow>
      (\<exists>ok s'. make_move s row col = Inr (ok, s') \<and> (\<not> ok \<longrightarrow> s' = s) \<and>
         ok = (state s = IN_PROGRESS \<and> is_valid_position row col \<and>
               board_get (board s) row col = Inr (player_value Player_EMPTY)))) \<and>
   (reachable_main g \<longrightarrow>
      (\<exists>res g'. make_move_main g row col = Inr (res, g') \<and> well_reported g row col res g'))"
proof -
  have first: "\<exists>ok s'. make_move s row col = Inr (ok, s') \<and> (\<not> ok \<longrightarrow> s' = s) \<and>
         ok = (state s = IN_PROGRESS \<and> is_valid_position row col \<and>
               board_get (board s) row col = Inr (player_value Player_EMPTY))" if r: "reachable s"
  proof -
    have inv: "game_inv s" using r by (rule reachable_inv)
    have wf: "wf_board (board s)" using inv by (simp add: game_inv_def)
    show ?thesis
      using make_move_cases[OF inv, of row col] acceptable_first[OF wf, of row col] by auto
  qed
  have second: "\<exists>res g'. make_move_main g row col = Inr (res, g') \<and> well_reported g row col res g'"
    if r: "reachable_main g"
  proof -
    from r obtain t n where t: "reachable t" and g: "g = to_main t n"
      using reachable_main_to_main by blast
    have inv: "game_inv t" using t by (rule reachable_inv)
    have cp: "current_player t = Player_X \<or> current_player t = Player_O"
      using inv by (simp add: game_inv_def)
    note am = acceptable_main[OF inv, of row col n]
    show ?thesis
    proof (cases "acceptable t row col")
      case False
      have "well_reported g row col
              (Rejected (reject_message t row col) (map (map cell_main) (board t))) g"
        using False[unfolded am] unfolding g well_reported_def
        by (simp add: reject_message_main[OF inv, of row col n] to_main_fields)
      then show ?thesis unfolding g using make_move_main_cases[OF inv, of n row col] False by simp
    next
      case True
      let ?t' = "after_move t row col"
      let ?k = "if current_player t = Player_X then move_history_x t else move_history_o t"
      have inv': "game_inv ?t'" using inv True by (rule game_inv_after_move)
      have wfm': "wf_board (map (map cell_main) (board ?t'))"
        using inv' by (simp add: game_inv_def wf_board_map)
      have wfm: "wf_board (map (map cell_main) (board t))"
        using inv by (simp add: game_inv_def wf_board_map)
      have p: "in_range (row, col)" using True by (simp add: acceptable_def)
      define v where "v = (if length ?k = 3 then Some (hd ?k) else None)"
      note ba = board_after_move[OF inv True refl v_def]
      have ge: "(length ?k \<ge> 3) = (length ?k = 3)" using ba(4) by auto
      have rem: "removed_by t = v" unfolding v_def removed_by_def Let_def ge ..
      have dk: "player_moves g (current_player_main g) = Some ?k"
        unfolding g to_main_fields using cp by auto
      have rem': "(case player_moves g (current_player_main g) of None \<Rightarrow> None
                   | Some k \<Rightarrow> if length k \<ge> 3 then Some (hd k) else None) = v"
        unfolding dk v_def using ge by simp
      have bc: "board_changes (board_main g) (map (map cell_main) (board ?t')) v
           (row, col) (Some (current_player_main g)) None"
        unfolding g to_main_fields ba(2) using wfm p ba(3) by (rule board_changes_put)
      have cw: "check_winner (map (map cell_main) (board ?t')) = Inr (winner_after ?t')"
        using check_winner_wf[OF wfm'] winner_after_move[OF inv True] by simp
      have sd: "state ?t' \<noteq> DRAW" using inv' by (simp add: game_inv_def)
      have ws: "winner_after ?t' = None \<and> status_main (state ?t') = ''ongoing'' \<or>
           winner_after ?t' = Some ''X'' \<and> status_main (state ?t') = ''X_wins'' \<or>
           winner_after ?t' = Some ''Y'' \<and> status_main (state ?t') = ''Y_wins''"
        using sd by (cases "state ?t'") (simp_all add: winner_after_def)
      have sw: "player_main (current_player ?t') \<noteq> current_player_main g"
        unfolding g to_main_fields after_move_fields(2) using cp by (auto simp: other_player_def)
      have "well_reported g row col (accepted_result t ?t') (to_main ?t' (n + 1))"
        unfolding well_reported_def accepted_result_def rem
        using True[unfolded am] bc cw ws sw rem'
        by (simp add: to_main_fields g)
      then show ?thesis unfolding g using make_move_main_cases[OF inv, of n row col] True by simp
    qed
  qed
  show ?thesis using first second by blast
qed

theorem move_results_witness:
  "reachable pre_win_game \<and> make_move pre_win_game 0 2 = Inr (True, won_game) \<and>
   make_move pre_win_game 7 (- 1) = Inr (False, pre_win_game) \<and>
   reachable_main (to_main pre_win_game 4) \<and>
   make_move_main (to_main pre_win_game 4) 0 2 = Inr (accepted_result pre_win_game won_game, to_main won_game 5) \<and>
   accepted_result pre_win_game won_game =
     Accepted ''Move successful''
       [[Some ''X'', Some ''X'', Some ''X''], [Some ''Y'', Some ''Y'', None], [None, None, None]]
       None ''Y'' ''X_wins'' (Some ''X'') \<and>
   well_reported (to_main pre_win_game 4) 0 2 (accepted_result pre_win_game won_game) (to_main won_game 5) \<and>
   reachable_main (to_main sample_game 6) \<and>
   make_move_main (to_main sample_game 6) 2 2 = Inr (accepted_result sample_game vanish_game, to_main vanish_game 7) \<and>
   accepted_result sample_game vanish_game =
     Accepted ''Move successful''
       [[None, Some ''X'', Some ''Y''], [None, Some ''Y'', Some ''X''], [None, Some ''Y'', Some ''X'']]
       (Some (0, 0)) ''Y'' ''ongoing'' None \<and>
   well_reported (to_main sample_game 6) 2 2 (accepted_result sample_game vanish_game) (to_main vanish_game 7) \<and>
   \<not> well_reported (to_main sample_game 6) 2 2
       (Accepted ''Move successful''
          [[None, Some ''X'', Some ''Y''], [None, Some ''Y'', Some ''X''], [None, Some ''Y'', Some ''X'']]
          None ''Y'' ''ongoing'' None) (to_main vanish_game 7) \<and>
   \<not> well_reported (to_main sample_game 6) 2 2
       (Accepted ''Move successful''
          [[None, Some ''X'', Some ''Y''], [None, Some ''Y'', Some ''X''], [None, Some ''Y'', Some ''X'']]
          (Some (7, 7)) ''Y'' ''ongoing'' None) (to_main vanish_game 7) \<and>
   reachable_main (to_main won_game 5) \<and>
   make_move_main (to_main won_game 5) 3 0 =
     Inr (Rejected ''Invalid position. Row and column must be between 0-2.''
            (board_main (to_main won_game 5)), to_main won_game 5) \<and>
   well_reported (to_main won_game 5) 3 0
     (Rejected ''Invalid position. Row and column must be between 0-2.''
        (board_main (to_main won_game 5))) (to_main won_game 5)"
proof -
  have a: "make_move pre_win_game 7 (- 1) = Inr (False, pre_win_game)"
    unfolding pre_win_game_def by code_simp
  note m1 = pre_win_main_move
  note m2 = main_move_of_move[OF sample_reachable sample_move, of 6, simplified]
  note m3 = won_main_rejections(1)
  have w1: "well_reported (to_main pre_win_game 4) 0 2 (accepted_result pre_win_game won_game) (to_main won_game 5)"
    using move_results [of pre_win_game 0 2 "to_main pre_win_game 4"] pre_win_main_reachable
    unfolding m1 by simp
  have w2: "well_reported (to_main sample_game 6) 2 2 (accepted_result sample_game vanish_game) (to_main vanish_game 7)"
    using move_results [of sample_game 2 2 "to_main sample_game 6"] sample_main_reachable
    unfolding m2 by simp
  have w3: "well_reported (to_main won_game 5) 3 0
     (Rejected ''Invalid position. Row and column must be between 0-2.''
        (board_main (to_main won_game 5))) (to_main won_game 5)"
    using move_results [of won_game 3 0 "to_main won_game 5"] won_main_reachable
    unfolding m3 by simp
  show ?thesis
    using w1 w2 w3 a m1 m2 m3 pre_win_reachable pre_win_move pre_win_main_reachable
      sample_main_reachable won_main_reachable accepted_samples wrong_removed
    by simp
qed

end
